theory Spec2Isabelle
  imports Main "HOL-Library.Sublist" "HOL-Library.AList"
begin

text \<open>
  The class \<open>RequestManager\<close>: a table from request identities to the requests in
  flight, in which a new request cancels the previous holder of its identity, and the
  wrapper promises through which the callers see the outcome of the latest request only.
  Values, errors and objects of the outside are given by their renderings; the objects
  that the code compares by reference are addresses into stores.
\<close>

section \<open>Identity resolver: \<open>#_generateRequestId\<close>\<close>

text \<open>
  JavaScript's \<open>String.prototype.includes\<close> and \<open>String.prototype.split\<close> for a
  separator that is a non-empty string. \<open>js_split\<close> scans from the left and cuts at every
  occurrence of the separator; the accumulator holds the current piece reversed.
\<close>

fun js_includes :: "string \<Rightarrow> string \<Rightarrow> bool" where
  "js_includes [] sep = (sep = [])"
| "js_includes (c # cs) sep = (prefix sep (c # cs) \<or> js_includes cs sep)"

fun js_split_acc :: "string \<Rightarrow> string \<Rightarrow> string \<Rightarrow> string list" where
  "js_split_acc sep acc [] = [rev acc]"
| "js_split_acc sep acc (c # cs) =
     (if prefix sep (c # cs)
      then rev acc # js_split_acc sep [] (drop (length sep - 1) cs)
      else js_split_acc sep (c # acc) cs)"

definition js_split :: "string \<Rightarrow> string \<Rightarrow> string list" where
  "js_split s sep = js_split_acc sep [] s"

text \<open>
  Array indexing \<open>parts[i]\<close>. Out of range JavaScript yields \<open>undefined\<close>; the resolver
  only indexes after \<open>includes\<close> has answered true, so the piece exists
  (\<open>js_split_has_second\<close> below) and the \<open>None\<close> branch is never taken there.
\<close>

fun js_index :: "string list \<Rightarrow> nat \<Rightarrow> string option" where
  "js_index [] i = None"
| "js_index (p # ps) 0 = Some p"
| "js_index (p # ps) (Suc i) = js_index ps i"

text \<open>
  The \<open>requestKey\<close> option: absent (\<open>null\<close> or \<open>undefined\<close>), a literal given by its
  \<open>String(...)\<close> rendering, or a zero-argument producer, which either throws or returns a
  value that is again absent or a literal.
\<close>

datatype producer_result = ProducerThrows | ProducerReturns "string option"

datatype request_key = KeyAbsent | KeyLiteral string | KeyProducer producer_result

text \<open>Decimal rendering of \<open>Date.now()\<close> inside the template literal.\<close>

fun string_of_nat :: "nat \<Rightarrow> string" where
  "string_of_nat n =
     (if n < 10 then [char_of (48 + n)]
      else string_of_nat (n div 10) @ [char_of (48 + n mod 10)])"

declare string_of_nat.simps [simp del]

text \<open>
  The clock and the random source are inputs of the model: \<open>now\<close> is the value of
  \<open>Date.now()\<close> and \<open>rnd\<close> the text \<open>Math.random().toString(36).slice(2, 11)\<close>.
\<close>

record entropy =
  now :: nat
  rnd :: string

definition strip_part :: "string \<Rightarrow> string \<Rightarrow> nat \<Rightarrow> string" where
  "strip_part cleanedUrl sep i =
     (if js_includes cleanedUrl sep
      then (case js_index (js_split cleanedUrl sep) i of Some p \<Rightarrow> p | None \<Rightarrow> cleanedUrl)
      else cleanedUrl)"

definition cleanUrl :: "string option \<Rightarrow> string" where
  "cleanUrl url =
     (let cleanedUrl = (case url of None \<Rightarrow> [] | Some u \<Rightarrow> u);
          cleanedUrl = strip_part cleanedUrl ''://'' 1;
          cleanedUrl = strip_part cleanedUrl ''?'' 0;
          cleanedUrl = strip_part cleanedUrl ''#'' 0
      in cleanedUrl)"

definition evalRequestKey :: "request_key \<Rightarrow> string option" where
  "evalRequestKey k =
     (case k of
        KeyAbsent \<Rightarrow> None
      | KeyLiteral v \<Rightarrow> Some v
      | KeyProducer ProducerThrows \<Rightarrow> None
      | KeyProducer (ProducerReturns r) \<Rightarrow> r)"

definition generateRequestId :: "string option \<Rightarrow> request_key \<Rightarrow> bool \<Rightarrow> entropy \<Rightarrow> string" where
  "generateRequestId url requestKey noCancel env =
     (if noCancel then ''request_'' @ string_of_nat (now env) @ ''_'' @ rnd env
      else (case evalRequestKey requestKey of
              Some v \<Rightarrow> ''request_'' @ v
            | None \<Rightarrow> ''request_'' @ cleanUrl url))"

section \<open>Data model of the coordinator\<close>

text \<open>
  Objects the code compares by reference live in stores and are named by addresses.
  A cancellation controller is either created by the manager (\<open>Own\<close>, allocated from a
  counter by \<open>new AbortController()\<close>) or handed in by the caller (\<open>User\<close>). A native
  controller has a \<open>signal\<close> and never raises from \<open>abort\<close>; an object supplied by the
  caller may lack the \<open>signal\<close> property (then reading \<open>signal.aborted\<close> raises a
  TypeError) and its \<open>abort\<close> may raise.
\<close>

datatype ctl_ref = Own nat | User nat

datatype abort_method = NotCallable | Callable bool

record controller =
  has_signal :: bool
  aborted :: bool
  abort_throws :: bool
  listeners :: "abort_method list"

text \<open>
  \<open>cancelToken\<close>: a function (the flag says whether calling it raises) or an object whose
  \<open>cancel\<close> member is missing (\<open>None\<close>) or present (the flag says whether calling it
  raises; a truthy member that is not callable raises a TypeError).
\<close>

datatype cancel_token = TokenFunction bool | TokenObject "bool option"

text \<open>
  What \<open>requestPromise\<close> is once the supplier has run: a thenable, whose \<open>then\<close> either
  raises or returns an object that has a \<open>catch\<close> member or not, or a value without a
  continuation interface (given by its rendering).
\<close>

datatype then_result = ThenThrows string | ThenReturns bool

datatype underlying = Thenable then_result | Plain string

datatype supplier_result = Yields underlying | Raises string

datatype request_input = Given underlying | Supplier supplier_result | UrlString string

text \<open>
  The \<open>options\<close> of a request: the four keys that the manager reads itself, and the
  other keys, which it passes on to the transport.
\<close>

record request_options =
  opt_abortController :: "ctl_ref option"
  opt_cancelToken :: "cancel_token option"
  requestKey :: request_key
  noCancel :: bool
  transport :: "(string \<times> string) list"

text \<open>
  The prepared options handed to a supplier or to \<open>fetch\<close>. A signal is named by the
  address of its controller; for a caller's controller without \<open>signal\<close> the source puts
  \<open>undefined\<close> there, and the field then names a controller whose \<open>has_signal\<close> is false.
\<close>

record fetch_options =
  signal :: ctl_ref
  passthrough :: "(string \<times> string) list"

record manager_options =
  mo_verbose :: "bool option"

datatype rejection = Original string | NewError string

datatype settlement = Pending | Fulfilled string | Rejected rejection

text \<open>
  \<open>requestInfo\<close>. The resolver functions \<open>resolveWrapper\<close> and \<open>rejectWrapper\<close> act on
  \<open>wrapperPromise\<close>; \<open>info_requestId\<close> is the \<open>requestId\<close> captured by the closures of
  the entry's continuations. \<open>abortController\<close> is never null in an entry:
  \<open>#_request\<close> stores \<open>options.abortController || this.getAbortController()\<close>.
\<close>

record request_info =
  info_requestId :: string
  promise :: underlying
  info_abortController :: ctl_ref
  cancelToken :: "cancel_token option"
  wrapperPromise :: settlement
  isCancelled :: bool
  info_verbose :: bool

text \<open>Calls that leave the coordinator, in the order they happen.\<close>

datatype effect =
    SupplierCalled fetch_options
  | FetchCalled string fetch_options
  | AbortCalled ctl_ref
  | AbortMethodCalled ctl_ref
  | TokenCalled nat
  | ResolveCalled nat string
  | RejectCalled nat rejection

text \<open>
  The manager's fields (\<open>activeRequests\<close>, a \<open>Map\<close> in insertion order, \<open>verbose\<close>,
  \<open>managerOptions\<close>, \<open>options\<close>, \<open>abortController\<close>) together with the two object stores
  and the trace of outside calls.
\<close>

record world =
  activeRequests :: "(string \<times> nat) list"
  verbose :: bool
  managerOptions :: manager_options
  options :: "request_options option"
  abortController :: "nat option"
  heap :: "nat \<Rightarrow> request_info"
  next_info :: nat
  controllers :: "ctl_ref \<Rightarrow> controller"
  next_controller :: nat
  trace :: "effect list"

datatype 'a result = Returned 'a | Raised string

type_synonym 'a action = "world \<Rightarrow> 'a result \<times> world"

definition return_value :: "'a \<Rightarrow> 'a action" where
  "return_value x w = (Returned x, w)"

definition raise_error :: "string \<Rightarrow> 'a action" where
  "raise_error e w = (Raised e, w)"

definition and_then :: "'a action \<Rightarrow> ('a \<Rightarrow> 'b action) \<Rightarrow> 'b action" where
  "and_then m k w = (case m w of (Raised e, w') \<Rightarrow> (Raised e, w') | (Returned x, w') \<Rightarrow> k x w')"

definition try_catch :: "unit action \<Rightarrow> unit action" where
  "try_catch m w = (case m w of (Raised e, w') \<Rightarrow> (Returned (), w') | (Returned x, w') \<Rightarrow> (Returned (), w'))"

definition modify :: "(world \<Rightarrow> world) \<Rightarrow> unit action" where
  "modify f w = (Returned (), f w)"

definition emit :: "effect \<Rightarrow> world \<Rightarrow> world" where
  "emit e w = w\<lparr>trace := trace w @ [e]\<rparr>"

section \<open>Manager operations\<close>

definition blank_info :: request_info where
  "blank_info = \<lparr>info_requestId = [], promise = Plain [], info_abortController = Own 0,
     cancelToken = None, wrapperPromise = Pending, isCancelled = False, info_verbose = False\<rparr>"

text \<open>
  \<open>constructor\<close>: \<open>verbose = managerOptions.verbose || false\<close>. The second argument is
  the state of the objects that exist outside the manager.
\<close>

definition constructor :: "manager_options \<Rightarrow> (ctl_ref \<Rightarrow> controller) \<Rightarrow> world" where
  "constructor mo ctls =
     \<lparr>activeRequests = [],
      verbose = (case mo_verbose mo of Some b \<Rightarrow> b | None \<Rightarrow> False),
      managerOptions = mo, options = None, abortController = None,
      heap = (\<lambda>r. blank_info), next_info = 0,
      controllers = ctls, next_controller = 0, trace = []\<rparr>"

definition flushRequestOptions :: "world \<Rightarrow> world" where
  "flushRequestOptions w = w\<lparr>options := None\<rparr>"

definition setRequestOptions :: "request_options \<Rightarrow> world \<Rightarrow> world" where
  "setRequestOptions opts w = w\<lparr>options := Some opts\<rparr>"

definition setOptions :: "manager_options \<Rightarrow> world \<Rightarrow> world" where
  "setOptions mo w =
     (let w1 = w\<lparr>managerOptions := mo\<rparr>
      in case mo_verbose mo of Some b \<Rightarrow> w1\<lparr>verbose := b\<rparr> | None \<Rightarrow> w1)"

definition new_AbortController :: "world \<Rightarrow> nat \<times> world" where
  "new_AbortController w =
     (next_controller w,
      w\<lparr>controllers := (controllers w)
           (Own (next_controller w) := \<lparr>has_signal = True, aborted = False, abort_throws = False, listeners = []\<rparr>),
        next_controller := Suc (next_controller w)\<rparr>)"

definition getAbortController :: "world \<Rightarrow> ctl_ref \<times> world" where
  "getAbortController w =
     (let fresh = (case new_AbortController w of (c, w') \<Rightarrow> (Own c, w'\<lparr>abortController := Some c\<rparr>))
      in case abortController w of
           None \<Rightarrow> fresh
         | Some c \<Rightarrow> if aborted (controllers w (Own c)) then fresh else (Own c, w))"

text \<open>
  The pending slot only ever holds a controller made by \<open>new AbortController()\<close>, which
  has a signal. A signal is named by the controller it is read from.
\<close>

definition getSignal :: "world \<Rightarrow> ctl_ref \<times> world" where
  "getSignal w = getAbortController w"

definition clearAbortController :: "world \<Rightarrow> world" where
  "clearAbortController w = w\<lparr>abortController := None\<rparr>"

definition customOptions :: "string list" where
  "customOptions = [''abortController'', ''cancelToken'', ''requestKey'', ''noCancel'']"

definition prepareFetchOptions :: "request_options \<Rightarrow> ctl_ref \<Rightarrow> fetch_options" where
  "prepareFetchOptions opts sig =
     \<lparr>signal = sig,
      passthrough = filter (\<lambda>kv. fst kv \<notin> set customOptions \<and> fst kv \<noteq> ''signal'') (transport opts)\<rparr>"

text \<open>
  The handler that \<open>addAbortListener\<close> registers: it calls \<open>abortMethod\<close> when that is a
  function, inside \<open>try\<close>/\<open>catch\<close>.
\<close>

definition abort_listener :: "ctl_ref \<Rightarrow> abort_method \<Rightarrow> unit action" where
  "abort_listener c abortMethod =
     (case abortMethod of
        NotCallable \<Rightarrow> return_value ()
      | Callable throws \<Rightarrow>
          try_catch (and_then (modify (emit (AbortMethodCalled c)))
                      (\<lambda>u. if throws then raise_error ''abortMethod raised'' else return_value ())))"

fun dispatch :: "ctl_ref \<Rightarrow> abort_method list \<Rightarrow> unit action" where
  "dispatch c [] = return_value ()"
| "dispatch c (m # ms) = and_then (abort_listener c m) (\<lambda>u. dispatch c ms)"

text \<open>
  \<open>controller.abort(reason)\<close>: a controller that is already aborted does nothing; otherwise
  the signal becomes aborted and its listeners run. An exception of a listener is passed
  on to the caller of \<open>abort\<close> here, which is the worst case for the coordinator.
\<close>

definition abort :: "ctl_ref \<Rightarrow> unit action" where
  "abort c w =
     (let w1 = emit (AbortCalled c) w; ctl = controllers w1 c
      in if abort_throws ctl then raise_error ''abort raised'' w1
         else if aborted ctl then return_value () w1
         else dispatch c (listeners ctl)
                (w1\<lparr>controllers := (controllers w1)(c := ctl\<lparr>aborted := True\<rparr>)\<rparr>))"

definition addAbortListener :: "abort_method \<Rightarrow> ctl_ref option \<Rightarrow> world \<Rightarrow> world" where
  "addAbortListener abortMethod sig w =
     (case sig of
        None \<Rightarrow> w
      | Some c \<Rightarrow>
          w\<lparr>controllers := (controllers w)
               (c := (controllers w c)\<lparr>listeners := listeners (controllers w c) @ [abortMethod]\<rparr>)\<rparr>)"

definition invoke_cancelToken :: "nat \<Rightarrow> cancel_token \<Rightarrow> unit action" where
  "invoke_cancelToken r t =
     (case t of
        TokenFunction throws \<Rightarrow>
          and_then (modify (emit (TokenCalled r)))
            (\<lambda>u. if throws then raise_error ''cancelToken raised'' else return_value ())
      | TokenObject None \<Rightarrow> return_value ()
      | TokenObject (Some throws) \<Rightarrow>
          and_then (modify (emit (TokenCalled r)))
            (\<lambda>u. if throws then raise_error ''cancelToken.cancel raised'' else return_value ()))"

text \<open>
  The resolver functions of a promise: the first call settles it, later calls are ignored.
\<close>

definition settle :: "nat \<Rightarrow> settlement \<Rightarrow> world \<Rightarrow> world" where
  "settle r outcome w =
     (if wrapperPromise (heap w r) = Pending
      then w\<lparr>heap := (heap w)(r := (heap w r)\<lparr>wrapperPromise := outcome\<rparr>)\<rparr>
      else w)"

definition resolveWrapper :: "nat \<Rightarrow> string \<Rightarrow> world \<Rightarrow> world" where
  "resolveWrapper r v w = settle r (Fulfilled v) (emit (ResolveCalled r v) w)"

definition rejectWrapper :: "nat \<Rightarrow> rejection \<Rightarrow> world \<Rightarrow> world" where
  "rejectWrapper r e w = settle r (Rejected e) (emit (RejectCalled r e) w)"

definition map_delete :: "string \<Rightarrow> world \<Rightarrow> world" where
  "map_delete requestId w = w\<lparr>activeRequests := AList.delete requestId (activeRequests w)\<rparr>"

definition map_set :: "string \<Rightarrow> nat \<Rightarrow> world \<Rightarrow> world" where
  "map_set requestId r w = w\<lparr>activeRequests := AList.update requestId r (activeRequests w)\<rparr>"

definition mark_cancelled :: "nat \<Rightarrow> world \<Rightarrow> world" where
  "mark_cancelled r w = w\<lparr>heap := (heap w)(r := (heap w r)\<lparr>isCancelled := True\<rparr>)\<rparr>"

text \<open>
  \<open>cancel\<close>, lines 682 to 709. The condition of line 689 reads
  \<open>requestInfo.abortController.signal.aborted\<close> outside every \<open>try\<close>: on a controller
  without \<open>signal\<close> it raises, after the entry has been marked and before anything else
  happens, and the exception leaves \<open>cancel\<close>.
\<close>

definition cancel :: "string \<Rightarrow> bool action" where
  "cancel requestId w =
     (case map_of (activeRequests w) requestId of
        None \<Rightarrow> return_value False w
      | Some r \<Rightarrow>
         (and_then (modify (mark_cancelled r))
          (\<lambda>u. and_then
             (\<lambda>w. if \<not> has_signal (controllers w (info_abortController (heap w r)))
                  then raise_error ''TypeError: signal is undefined'' w
                  else if \<not> aborted (controllers w (info_abortController (heap w r)))
                  then try_catch (abort (info_abortController (heap w r))) w
                  else return_value () w)
          (\<lambda>u. and_then
             (\<lambda>w. case cancelToken (heap w r) of
                     None \<Rightarrow> return_value () w
                   | Some t \<Rightarrow> try_catch (invoke_cancelToken r t) w)
          (\<lambda>u. and_then
             (modify (\<lambda>w. if verbose w
                           then rejectWrapper r (NewError (''Request '' @ requestId @ '' was cancelled'')) w
                           else w))
          (\<lambda>u. and_then (modify (map_delete requestId))
          (\<lambda>u. return_value True)))))) w)"

fun cancel_each :: "string list \<Rightarrow> nat \<Rightarrow> nat action" where
  "cancel_each [] cancelledCount = return_value cancelledCount"
| "cancel_each (requestId # rest) cancelledCount =
     and_then (cancel requestId)
       (\<lambda>found. cancel_each rest (if found then Suc cancelledCount else cancelledCount))"

definition cancelAll :: "nat action" where
  "cancelAll w = cancel_each (map fst (activeRequests w)) 0 w"

definition isActive :: "string \<Rightarrow> world \<Rightarrow> bool" where
  "isActive requestId w = (map_of (activeRequests w) requestId \<noteq> None)"

definition getActiveCount :: "world \<Rightarrow> nat" where
  "getActiveCount w = length (activeRequests w)"

definition clear :: "world \<Rightarrow> world" where
  "clear w = w\<lparr>activeRequests := []\<rparr>"

section \<open>Submitting a request\<close>

text \<open>
  The continuations that \<open>#_request\<close> attaches to the underlying call of entry \<open>r\<close>:
  the \<open>then\<close> callback, \<open>onError\<close>, and the callback of \<open>setTimeout\<close> for a value that is
  not a thenable. \<open>this.activeRequests.get(requestId) === requestInfo\<close> compares addresses.
\<close>

definition onFulfilled :: "nat \<Rightarrow> string \<Rightarrow> world \<Rightarrow> world" where
  "onFulfilled r res w =
     (if map_of (activeRequests w) (info_requestId (heap w r)) = Some r \<and> \<not> isCancelled (heap w r)
      then resolveWrapper r res (map_delete (info_requestId (heap w r)) w)
      else w)"

definition onError :: "nat \<Rightarrow> string \<Rightarrow> world \<Rightarrow> world" where
  "onError r err w =
     (if map_of (activeRequests w) (info_requestId (heap w r)) \<noteq> Some r then w
      else (let w1 = map_delete (info_requestId (heap w r)) w
            in if \<not> isCancelled (heap w1 r) then rejectWrapper r (Original err) w1
               else if isCancelled (heap w1 r) \<and> info_verbose (heap w1 r)
                    then rejectWrapper r (NewError ''Request was cancelled'') w1
                    else w1))"

definition onTimeout :: "nat \<Rightarrow> world \<Rightarrow> world" where
  "onTimeout r w =
     (case promise (heap w r) of
        Plain obj \<Rightarrow> onFulfilled r obj w
      | Thenable t \<Rightarrow> w)"

text \<open>
  Lines 291 to 299: a function is called with the prepared options, a string is fetched,
  anything else is used as it is. A supplier that raises ends \<open>#_request\<close> there.
\<close>

definition obtain_underlying :: "request_input \<Rightarrow> request_options \<Rightarrow> ctl_ref \<Rightarrow> underlying action" where
  "obtain_underlying requestPromise opts ac =
     (case requestPromise of
        Supplier res \<Rightarrow>
          and_then (modify (emit (SupplierCalled (prepareFetchOptions opts ac))))
            (\<lambda>u. case res of Yields p \<Rightarrow> return_value p | Raises e \<Rightarrow> raise_error e)
      | UrlString url \<Rightarrow>
          and_then (modify (emit (FetchCalled url (prepareFetchOptions opts ac))))
            (\<lambda>u. return_value (Thenable (ThenReturns True)))
      | Given p \<Rightarrow> return_value p)"

definition register :: "string \<Rightarrow> underlying \<Rightarrow> ctl_ref \<Rightarrow> request_options \<Rightarrow> nat action" where
  "register requestId p ac opts w =
     (let r = next_info w;
          requestInfo = \<lparr>info_requestId = requestId, promise = p, info_abortController = ac,
                         cancelToken = opt_cancelToken opts, wrapperPromise = Pending,
                         isCancelled = False, info_verbose = verbose w\<rparr>
      in return_value r
           (map_set requestId r (w\<lparr>heap := (heap w)(r := requestInfo), next_info := Suc r\<rparr>)))"

text \<open>
  Lines 326 to 361. A \<open>then\<close> that raises runs \<open>onError\<close> at once; otherwise the callbacks
  wait for the underlying call (the events \<open>Settles\<close>, \<open>Fails\<close> and \<open>TimerFires\<close> below).
\<close>

definition attach :: "nat \<Rightarrow> underlying \<Rightarrow> world \<Rightarrow> world" where
  "attach r p w =
     (case p of
        Thenable (ThenThrows e) \<Rightarrow> onError r e w
      | Thenable (ThenReturns has_catch) \<Rightarrow> w
      | Plain obj \<Rightarrow> w)"

definition private_request :: "string \<Rightarrow> request_input \<Rightarrow> request_options \<Rightarrow> nat action" where
  "private_request requestId requestPromise opts =
     and_then (modify (setRequestOptions opts))
     (\<lambda>u. and_then (modify (\<lambda>w. if opt_abortController opts = None then clearAbortController w else w))
     (\<lambda>u. and_then (modify flushRequestOptions)
     (\<lambda>u. and_then
        (\<lambda>w. case opt_abortController opts of
                Some c \<Rightarrow> return_value c w
              | None \<Rightarrow> (case getAbortController w of (c, w') \<Rightarrow> return_value c w'))
     (\<lambda>ac. and_then (obtain_underlying requestPromise opts ac)
     (\<lambda>p. and_then
        (if \<not> noCancel opts then and_then (cancel requestId) (\<lambda>found. return_value ())
         else return_value ())
     (\<lambda>u. and_then (register requestId p ac opts)
     (\<lambda>r. and_then (modify (attach r p))
     (\<lambda>u. return_value r))))))))"

definition request :: "string option \<Rightarrow> request_input \<Rightarrow> request_options \<Rightarrow> entropy \<Rightarrow> nat action" where
  "request url requestPromise opts env =
     private_request (generateRequestId url (requestKey opts) (noCancel opts) env) requestPromise opts"

section \<open>Runs of the coordinator\<close>

text \<open>
  What can happen to a manager between two turns of the event loop: a call of one of its
  methods, an \<open>abort\<close> of some controller by the caller, or the completion of an underlying
  call, which runs the continuation that was attached to it. A completion event is
  enabled only for an entry that exists and has that continuation attached.
  Continuations run as jobs of their own, as those of a native promise do, and the code
  that the manager calls (suppliers, abort listeners, cancel tokens) does not call the
  manager back while it runs.
\<close>

datatype event =
    Request "string option" request_input request_options entropy
  | Cancel string
  | CancelAll
  | Clear
  | SetOptions manager_options
  | GetAbortController
  | AddAbortListener abort_method "ctl_ref option"
  | ExternalAbort ctl_ref
  | Settles nat string
  | Fails nat string
  | TimerFires nat

fun then_attached :: "underlying \<Rightarrow> bool" where
  "then_attached (Thenable (ThenReturns has_catch)) = True"
| "then_attached (Thenable (ThenThrows e)) = False"
| "then_attached (Plain obj) = False"

fun catch_attached :: "underlying \<Rightarrow> bool" where
  "catch_attached (Thenable (ThenReturns has_catch)) = has_catch"
| "catch_attached (Thenable (ThenThrows e)) = False"
| "catch_attached (Plain obj) = False"

fun step :: "event \<Rightarrow> world \<Rightarrow> world" where
  "step (Request url requestPromise opts env) w = snd (request url requestPromise opts env w)"
| "step (Cancel requestId) w = snd (cancel requestId w)"
| "step CancelAll w = snd (cancelAll w)"
| "step Clear w = clear w"
| "step (SetOptions mo) w = setOptions mo w"
| "step GetAbortController w = snd (getAbortController w)"
| "step (AddAbortListener abortMethod sig) w = addAbortListener abortMethod sig w"
| "step (ExternalAbort c) w = snd (abort c w)"
| "step (Settles r res) w =
     (if r < next_info w \<and> then_attached (promise (heap w r))
      then onFulfilled r res w else w)"
| "step (Fails r err) w =
     (if r < next_info w \<and> catch_attached (promise (heap w r))
      then onError r err w else w)"
| "step (TimerFires r) w =
     (if r < next_info w then onTimeout r w else w)"

fun run :: "event list \<Rightarrow> world \<Rightarrow> world" where
  "run [] w = w"
| "run (e # es) w = run es (step e w)"

section \<open>Notions used in the statements\<close>

subsection \<open>What a cancellation leaves behind\<close>

text \<open>
  What one call of \<open>abort\<close> leaves of a controller, which outside calls the cancel token
  of entry \<open>r\<close> receives, the error that \<open>cancel\<close> rejects with, and the entry as
  \<open>cancel\<close> leaves it when the manager's \<open>verbose\<close> flag is \<open>v\<close>.
\<close>

definition abort_outcome :: "controller \<Rightarrow> controller" where
  "abort_outcome ctl = (if abort_throws ctl then ctl else ctl\<lparr>aborted := True\<rparr>)"

definition token_calls :: "nat \<Rightarrow> cancel_token option \<Rightarrow> effect list" where
  "token_calls r tok =
     (case tok of None \<Rightarrow> [] | Some (TokenObject None) \<Rightarrow> [] | Some t \<Rightarrow> [TokenCalled r])"

definition cancel_message :: "string \<Rightarrow> rejection" where
  "cancel_message requestId = NewError (''Request '' @ requestId @ '' was cancelled'')"

definition cancelled_info :: "bool \<Rightarrow> string \<Rightarrow> request_info \<Rightarrow> request_info" where
  "cancelled_info v requestId info =
     info\<lparr>isCancelled := True,
          wrapperPromise := (if v \<and> wrapperPromise info = Pending
                             then Rejected (cancel_message requestId) else wrapperPromise info)\<rparr>"

text \<open>The entry as \<open>onError\<close> leaves it when it is still the occupant of its key.\<close>

definition onError_info :: "string \<Rightarrow> request_info \<Rightarrow> request_info" where
  "onError_info err info =
     info\<lparr>wrapperPromise :=
        (if wrapperPromise info \<noteq> Pending then wrapperPromise info
         else if \<not> isCancelled info then Rejected (Original err)
         else if info_verbose info then Rejected (NewError ''Request was cancelled'')
         else Pending)\<rparr>"

subsection \<open>Resolver calls and the shape of a manager\<close>

text \<open>
  The entries whose resolver functions have been called, in the order of the calls.
\<close>

fun settled_refs :: "effect list \<Rightarrow> nat list" where
  "settled_refs [] = []"
| "settled_refs (ResolveCalled r v # es) = r # settled_refs es"
| "settled_refs (RejectCalled r e # es) = r # settled_refs es"
| "settled_refs (SupplierCalled fo # es) = settled_refs es"
| "settled_refs (FetchCalled u fo # es) = settled_refs es"
| "settled_refs (AbortCalled c # es) = settled_refs es"
| "settled_refs (AbortMethodCalled c # es) = settled_refs es"
| "settled_refs (TokenCalled r # es) = settled_refs es"

text \<open>
  The shape of a manager between two turns of the event loop: keys are distinct; an entry
  in the table is allocated, was registered under the key its closures captured, and its
  wrapper promise is pending with no resolver call so far (it may be marked cancelled,
  when a \<open>cancel\<close> raised on a controller without signal); resolver
  calls refer to allocated entries, at most one per entry; the pending controller was
  created by the manager.
\<close>

definition consistent :: "world \<Rightarrow> bool" where
  "consistent w \<longleftrightarrow>
     distinct (map fst (activeRequests w))
     \<and> list_all (\<lambda>kr. snd kr < next_info w
                      \<and> info_requestId (heap w (snd kr)) = fst kr
                      \<and> wrapperPromise (heap w (snd kr)) = Pending
                      \<and> snd kr \<notin> set (settled_refs (trace w))) (activeRequests w)
     \<and> list_all (\<lambda>r. r < next_info w) (settled_refs (trace w))
     \<and> distinct (settled_refs (trace w))
     \<and> (case abortController w of None \<Rightarrow> True | Some c \<Rightarrow> c < next_controller w)"

text \<open>
  An entry that exists and is no longer in the table, and the frame that every operation
  keeps: the allocation counters only grow, and a detached entry stays detached and is
  not written to.
\<close>

definition detached :: "nat \<Rightarrow> world \<Rightarrow> bool" where
  "detached r w \<longleftrightarrow> r < next_info w \<and> r \<notin> snd ` set (activeRequests w)"

definition evolves :: "world \<Rightarrow> world \<Rightarrow> bool" where
  "evolves w w' \<longleftrightarrow>
     next_info w \<le> next_info w' \<and> next_controller w \<le> next_controller w'
     \<and> (\<forall>r. detached r w \<longrightarrow> detached r w' \<and> heap w' r = heap w r)"

text \<open>
  The controller stored in entry \<open>r\<close> has a signal, as an \<open>AbortController\<close> has, and
  so has the controller of every entry in the table.
\<close>

definition typed_entry :: "nat \<Rightarrow> world \<Rightarrow> bool" where
  "typed_entry r w \<longleftrightarrow> has_signal (controllers w (info_abortController (heap w r)))"

definition typed_table :: "world \<Rightarrow> bool" where
  "typed_table w \<longleftrightarrow> list_all (\<lambda>kr. typed_entry (snd kr) w) (activeRequests w)"

subsection \<open>The stages of \<open>#_request\<close>\<close>

text \<open>
  Lines 284 to 287: which controller the request gets. Line 302: the state after the
  cancellation of the previous holder, which \<open>noCancel\<close> skips, and whether that
  cancellation returned or raised. Lines 291 to 299: the call that leaves the manager with
  the prepared options.
\<close>

definition choose_controller :: "request_options \<Rightarrow> world \<Rightarrow> ctl_ref \<times> world" where
  "choose_controller opts w =
     (case opt_abortController opts of
        Some c \<Rightarrow> (c, flushRequestOptions (setRequestOptions opts w))
      | None \<Rightarrow> getAbortController (flushRequestOptions (clearAbortController (setRequestOptions opts w))))"

definition after_cancel :: "string \<Rightarrow> request_options \<Rightarrow> world \<Rightarrow> world" where
  "after_cancel requestId opts w = (if noCancel opts then w else snd (cancel requestId w))"

definition cancel_outcome :: "string \<Rightarrow> request_options \<Rightarrow> world \<Rightarrow> bool result" where
  "cancel_outcome requestId opts w = (if noCancel opts then Returned False else fst (cancel requestId w))"

definition supplier_call :: "request_input \<Rightarrow> request_options \<Rightarrow> ctl_ref \<Rightarrow> effect list" where
  "supplier_call inp opts ac =
     (case inp of
        Given p \<Rightarrow> []
      | Supplier res \<Rightarrow> [SupplierCalled (prepareFetchOptions opts ac)]
      | UrlString url \<Rightarrow> [FetchCalled url (prepareFetchOptions opts ac)])"

subsection \<open>Completions of underlying calls\<close>

text \<open>
  An underlying promise fulfils with a value or fails with an error; the event that runs
  the continuation of entry \<open>r\<close>, and what the caller of that request should then see.
  An entry is awaiting its completion when it is the occupant of its key, not cancelled,
  pending, and both continuations are attached.
\<close>

datatype completion = Succeeds string | Breaks string

fun completion_event :: "nat \<Rightarrow> completion \<Rightarrow> event" where
  "completion_event r (Succeeds v) = Settles r v"
| "completion_event r (Breaks e) = Fails r e"

fun completion_outcome :: "completion \<Rightarrow> settlement" where
  "completion_outcome (Succeeds v) = Fulfilled v"
| "completion_outcome (Breaks e) = Rejected (Original e)"

definition awaiting :: "nat \<Rightarrow> world \<Rightarrow> bool" where
  "awaiting r w \<longleftrightarrow>
     r < next_info w
     \<and> map_of (activeRequests w) (info_requestId (heap w r)) = Some r
     \<and> \<not> isCancelled (heap w r)
     \<and> wrapperPromise (heap w r) = Pending
     \<and> catch_attached (promise (heap w r))"

subsection \<open>Reading a decimal rendering back\<close>

definition digits_value :: "string \<Rightarrow> nat" where
  "digits_value s = foldl (\<lambda>a ch. 10 * a + (of_char ch - 48)) 0 s"

subsection \<open>Concrete managers for the examples\<close>

text \<open>
  Native controllers only, a request with default options, an underlying promise that
  is still pending, and the managers that the examples start from.
\<close>

definition plain_controllers :: "ctl_ref \<Rightarrow> controller" where
  "plain_controllers = (\<lambda>c. \<lparr>has_signal = True, aborted = False, abort_throws = False, listeners = []\<rparr>)"

definition default_options :: request_options where
  "default_options = \<lparr>opt_abortController = None, opt_cancelToken = None, requestKey = KeyAbsent,
     noCancel = False, transport = []\<rparr>"

definition pending_call :: request_input where
  "pending_call = Given (Thenable (ThenReturns True))"

definition no_entropy :: entropy where
  "no_entropy = \<lparr>now = 0, rnd = []\<rparr>"



definition two_requests :: world where
  "two_requests =
     run [Request (Some ''/api/a'') pending_call default_options no_entropy,
          Request (Some ''/api/b'') pending_call default_options no_entropy]
       (constructor \<lparr>mo_verbose = None\<rparr> plain_controllers)"

definition created_verbose_then_quiet :: world where
  "created_verbose_then_quiet =
     run [Request (Some ''/api/a'') pending_call default_options no_entropy,
          SetOptions \<lparr>mo_verbose = Some False\<rparr>]
       (constructor \<lparr>mo_verbose = Some True\<rparr> plain_controllers)"

definition created_quiet_then_verbose :: world where
  "created_quiet_then_verbose =
     run [Request (Some ''/api/a'') pending_call default_options no_entropy,
          SetOptions \<lparr>mo_verbose = Some True\<rparr>]
       (constructor \<lparr>mo_verbose = Some False\<rparr> plain_controllers)"

definition superseded :: world where
  "superseded =
     run [Request (Some ''https://h/api/a?q=1'') pending_call default_options no_entropy,
          Request (Some ''https://h/api/a?q=2'') pending_call default_options no_entropy]
       (constructor \<lparr>mo_verbose = None\<rparr> plain_controllers)"

definition first_pending :: world where
  "first_pending =
     run [Request (Some ''https://h/api/a?q=1'') pending_call
            (default_options\<lparr>opt_cancelToken := Some (TokenFunction False)\<rparr>) no_entropy]
       (constructor \<lparr>mo_verbose = None\<rparr> plain_controllers)"

definition signal_taken :: world where
  "signal_taken = snd (getSignal (constructor \<lparr>mo_verbose = None\<rparr> plain_controllers))"

definition suppressed_options :: request_options where
  "suppressed_options = default_options\<lparr>requestKey := KeyLiteral ''lazy'', noCancel := True\<rparr>"

definition same_draw_twice :: world where
  "same_draw_twice =
     run [Request (Some ''/api/lazy'') pending_call suppressed_options \<lparr>now = 7, rnd = ''k3x9''\<rparr>,
          Request (Some ''/api/lazy'') pending_call suppressed_options \<lparr>now = 7, rnd = ''k3x9''\<rparr>]
       (constructor \<lparr>mo_verbose = None\<rparr> plain_controllers)"

definition first_suppressed :: world where
  "first_suppressed =
     snd (request (Some ''/api/lazy'') pending_call suppressed_options \<lparr>now = 7, rnd = ''k3x9''\<rparr>
            (constructor \<lparr>mo_verbose = None\<rparr> plain_controllers))"

definition both_suppressed :: world where
  "both_suppressed =
     snd (request (Some ''/api/lazy'') pending_call suppressed_options \<lparr>now = 8, rnd = ''k3x9''\<rparr>
            first_suppressed)"

section \<open>Facts about the operations\<close>

lemmas eval_defs =
  constructor_def request_def private_request_def generateRequestId_def cleanUrl_def
  strip_part_def js_split_def evalRequestKey_def and_then_def modify_def return_value_def
  raise_error_def setRequestOptions_def clearAbortController_def flushRequestOptions_def
  getAbortController_def new_AbortController_def obtain_underlying_def register_def map_set_def
  attach_def cancel_def setOptions_def plain_controllers_def default_options_def pending_call_def
  no_entropy_def emit_def prepareFetchOptions_def customOptions_def

subsection \<open>The resolver's string operations\<close>

lemma js_split_acc_nonempty: "js_split_acc sep acc s \<noteq> []"
  by (induction sep acc s rule: js_split_acc.induct) auto

lemma js_split_has_second:
  "js_includes s sep \<Longrightarrow> sep \<noteq> [] \<Longrightarrow> 2 \<le> length (js_split_acc sep acc s)"
proof (induction sep acc s rule: js_split_acc.induct)
  case (1 sep acc)
  then show ?case by simp
next
  case (2 sep acc c cs)
  have "1 \<le> length (js_split_acc sep [] (drop (length sep - 1) cs))"
    using js_split_acc_nonempty [of sep "[]" "drop (length sep - 1) cs"]
    by (cases "js_split_acc sep [] (drop (length sep - 1) cs)") auto
  with 2 show ?case by (auto split: if_splits)
qed

lemma takeWhile_all: "c \<notin> set p \<Longrightarrow> takeWhile (\<lambda>x. x \<noteq> c) p = p"
  by (induction p) auto

lemma js_includes_char: "js_includes s [c] \<longleftrightarrow> c \<in> set s"
  by (induction s) auto

lemma first_piece_char:
  "js_index (js_split_acc [c] acc s) 0 = Some (rev acc @ takeWhile (\<lambda>x. x \<noteq> c) s)"
  by (induction s arbitrary: acc) auto

lemma strip_char: "strip_part s [c] 0 = takeWhile (\<lambda>x. x \<noteq> c) s"
proof (cases "c \<in> set s")
  case True
  then show ?thesis
    using first_piece_char [of c "[]" s] by (simp add: strip_part_def js_split_def js_includes_char)
next
  case False
  then show ?thesis by (simp add: strip_part_def js_includes_char takeWhile_all)
qed

lemma cleanUrl_shape:
  "cleanUrl (Some u) =
     takeWhile (\<lambda>c. c \<noteq> CHR ''#'') (takeWhile (\<lambda>c. c \<noteq> CHR ''?'') (strip_part u ''://'' 1))"
  by (simp add: cleanUrl_def strip_char)

lemma js_split_no_sep:
  "\<not> js_includes s sep \<Longrightarrow> js_split_acc sep acc s = [rev acc @ s]"
  by (induction sep acc s rule: js_split_acc.induct) auto

lemma js_includes_mid: "sep \<noteq> [] \<Longrightarrow> js_includes (xs @ sep @ ys) sep"
proof (induction xs)
  case Nil
  then show ?case by (cases sep) auto
next
  case (Cons x xs)
  then show ?case by simp
qed

lemma js_split_scheme:
  "CHR '':'' \<notin> set scheme \<Longrightarrow>
     js_split_acc ''://'' acc (scheme @ ''://'' @ rest) = (rev acc @ scheme) # js_split_acc ''://'' [] rest"
  by (induction scheme arbitrary: acc) auto

lemma strip_scheme:
  assumes "CHR '':'' \<notin> set scheme" "\<not> js_includes rest ''://''"
  shows "strip_part (scheme @ ''://'' @ rest) ''://'' 1 = rest"
proof -
  have "js_includes (scheme @ ''://'' @ rest) ''://''" by (rule js_includes_mid) simp
  moreover have "js_split (scheme @ ''://'' @ rest) ''://'' = [scheme, rest]"
    using js_split_scheme [OF assms(1), of "[]" rest] js_split_no_sep [OF assms(2), of "[]"]
    by (simp add: js_split_def)
  ultimately show ?thesis by (simp add: strip_part_def)
qed

lemma strip_no_scheme: "\<not> js_includes u ''://'' \<Longrightarrow> strip_part u ''://'' 1 = u"
  by (simp add: strip_part_def)

lemma takeWhile_query: "CHR ''?'' \<notin> set p \<Longrightarrow> takeWhile (\<lambda>c. c \<noteq> CHR ''?'') (p @ ''?'' @ q) = p"
  by (induction p) auto

lemma takeWhile_fragment:
  "CHR ''#'' \<notin> set p \<Longrightarrow> CHR ''?'' \<notin> set p \<Longrightarrow>
   takeWhile (\<lambda>c. c \<noteq> CHR ''#'') (takeWhile (\<lambda>c. c \<noteq> CHR ''?'') (p @ ''#'' @ f)) = p"
  by (induction p) auto

subsection \<open>Abort, listeners and cancel tokens\<close>

lemma settled_refs_append: "settled_refs (xs @ ys) = settled_refs xs @ settled_refs ys"
  by (induction xs rule: settled_refs.induct) simp_all

lemma settled_refs_token_calls: "settled_refs (token_calls r tok) = []"
  by (cases tok) (auto simp add: token_calls_def split: cancel_token.splits option.splits)

lemma abort_listener_result:
  "\<exists>t. abort_listener c m w = (Returned (), w\<lparr>trace := trace w @ t\<rparr>) \<and> settled_refs t = []"
proof (cases m)
  case NotCallable
  have "abort_listener c m w = (Returned (), w\<lparr>trace := trace w @ []\<rparr>)"
    using NotCallable by (simp add: abort_listener_def return_value_def)
  then show ?thesis by (intro exI [of _ "[]"]) simp
next
  case (Callable throws)
  have "abort_listener c m w = (Returned (), w\<lparr>trace := trace w @ [AbortMethodCalled c]\<rparr>)"
    using Callable
    by (simp add: abort_listener_def try_catch_def and_then_def modify_def emit_def
        raise_error_def return_value_def)
  then show ?thesis by (intro exI [of _ "[AbortMethodCalled c]"]) simp
qed

lemma dispatch_result:
  "\<exists>t. dispatch c ms w = (Returned (), w\<lparr>trace := trace w @ t\<rparr>) \<and> settled_refs t = []"
proof (induction ms arbitrary: w)
  case Nil
  have "dispatch c [] w = (Returned (), w\<lparr>trace := trace w @ []\<rparr>)"
    by (simp add: return_value_def)
  then show ?case by (intro exI [of _ "[]"]) simp
next
  case (Cons m ms)
  obtain t1 where t1: "abort_listener c m w = (Returned (), w\<lparr>trace := trace w @ t1\<rparr>)"
    and s1: "settled_refs t1 = []"
    using abort_listener_result by blast
  obtain t2 where t2: "dispatch c ms (w\<lparr>trace := trace w @ t1\<rparr>)
      = (Returned (), w\<lparr>trace := trace w @ t1\<rparr>\<lparr>trace := trace (w\<lparr>trace := trace w @ t1\<rparr>) @ t2\<rparr>)"
    and s2: "settled_refs t2 = []"
    using Cons.IH by blast
  have "dispatch c (m # ms) w = (Returned (), w\<lparr>trace := trace w @ (t1 @ t2)\<rparr>)"
    using t1 t2 by (simp add: and_then_def)
  moreover have "settled_refs (t1 @ t2) = []"
    using s1 s2 by (simp add: settled_refs_append)
  ultimately show ?case by blast
qed

lemma abort_result:
  "\<exists>res t. abort c w =
     (res, w\<lparr>controllers := (controllers w)(c := abort_outcome (controllers w c)),
            trace := trace w @ AbortCalled c # t\<rparr>) \<and> settled_refs t = []"
proof -
  let ?ctl = "controllers w c"
  consider (throws) "abort_throws ?ctl" | (already) "\<not> abort_throws ?ctl" "aborted ?ctl"
    | (fires) "\<not> abort_throws ?ctl" "\<not> aborted ?ctl" by blast
  then show ?thesis
  proof cases
    case throws
    then have "abort c w =
     (Raised ''abort raised'', w\<lparr>controllers := (controllers w)(c := abort_outcome (controllers w c)),
                     trace := trace w @ AbortCalled c # []\<rparr>)"
      by (simp add: abort_def emit_def raise_error_def abort_outcome_def Let_def)
    then show ?thesis by (intro exI [of _ "Raised ''abort raised''"] exI [of _ "[]"]) simp
  next
    case already
    then have "abort_outcome ?ctl = ?ctl" by (simp add: abort_outcome_def)
    then have "abort c w =
     (Returned (), w\<lparr>controllers := (controllers w)(c := abort_outcome (controllers w c)),
                     trace := trace w @ AbortCalled c # []\<rparr>)"
      using already
      by (simp add: abort_def emit_def return_value_def Let_def)
    then show ?thesis by (intro exI [of _ "Returned ()"] exI [of _ "[]"]) simp
  next
    case fires
    let ?w1 = "w\<lparr>trace := trace w @ [AbortCalled c],
       controllers := (controllers w)(c := ?ctl\<lparr>aborted := True\<rparr>)\<rparr>"
    obtain t where t: "dispatch c (listeners ?ctl) ?w1 = (Returned (), ?w1\<lparr>trace := trace ?w1 @ t\<rparr>)"
      and s: "settled_refs t = []"
      using dispatch_result by blast
    have "abort c w =
     (Returned (), w\<lparr>controllers := (controllers w)(c := abort_outcome (controllers w c)),
                     trace := trace w @ AbortCalled c # t\<rparr>)"
      using fires t
      by (simp add: abort_def emit_def Let_def abort_outcome_def)
    then show ?thesis using s by blast
  qed
qed

lemma try_abort_result:
  "\<exists>t. try_catch (abort c) w =
     (Returned (), w\<lparr>controllers := (controllers w)(c := abort_outcome (controllers w c)),
                     trace := trace w @ AbortCalled c # t\<rparr>) \<and> settled_refs t = []"
proof -
  obtain res t where "abort c w =
     (res, w\<lparr>controllers := (controllers w)(c := abort_outcome (controllers w c)),
            trace := trace w @ AbortCalled c # t\<rparr>)" and "settled_refs t = []"
    using abort_result by blast
  then show ?thesis by (cases res) (auto simp add: try_catch_def)
qed

lemma try_token_result:
  "try_catch (invoke_cancelToken r t) w = (Returned (), w\<lparr>trace := trace w @ token_calls r (Some t)\<rparr>)"
proof (cases t)
  case (TokenFunction throws)
  then show ?thesis
    by (simp add: try_catch_def invoke_cancelToken_def and_then_def modify_def emit_def
        raise_error_def return_value_def token_calls_def)
next
  case (TokenObject m)
  then show ?thesis
    by (cases m)
      (simp_all add: try_catch_def invoke_cancelToken_def and_then_def modify_def emit_def
        raise_error_def return_value_def token_calls_def)
qed

subsection \<open>What cancel does\<close>

lemma cancel_absent:
  "map_of (activeRequests w) i = None \<Longrightarrow> cancel i w = (Returned False, w)"
  by (simp add: cancel_def return_value_def)

lemma cancel_present:
  assumes "map_of (activeRequests w) i = Some r"
    and "has_signal (controllers w (info_abortController (heap w r)))"
  shows "\<exists>t. cancel i w =
    (Returned True,
     w\<lparr>activeRequests := AList.delete i (activeRequests w),
       heap := (heap w)(r := cancelled_info (verbose w) i (heap w r)),
       controllers := (if aborted (controllers w (info_abortController (heap w r)))
                       then controllers w
                       else (controllers w)(info_abortController (heap w r) :=
                              abort_outcome (controllers w (info_abortController (heap w r))))),
       trace := trace w
          @ (if aborted (controllers w (info_abortController (heap w r))) then []
             else AbortCalled (info_abortController (heap w r)) # t)
          @ token_calls r (cancelToken (heap w r))
          @ (if verbose w then [RejectCalled r (cancel_message i)] else [])\<rparr>)
     \<and> settled_refs t = []"
proof -
  let ?c = "info_abortController (heap w r)"
  let ?w1 = "mark_cancelled r w"
  obtain t where t: "try_catch (abort ?c) ?w1 =
     (Returned (), ?w1\<lparr>controllers := (controllers ?w1)(?c := abort_outcome (controllers ?w1 ?c)),
                     trace := trace ?w1 @ AbortCalled ?c # t\<rparr>)"
    and s: "settled_refs t = []"
    using try_abort_result by blast
  have "cancel i w =
    (Returned True,
     w\<lparr>activeRequests := AList.delete i (activeRequests w),
       heap := (heap w)(r := cancelled_info (verbose w) i (heap w r)),
       controllers := (if aborted (controllers w (info_abortController (heap w r)))
                       then controllers w
                       else (controllers w)(info_abortController (heap w r) :=
                              abort_outcome (controllers w (info_abortController (heap w r))))),
       trace := trace w
          @ (if aborted (controllers w (info_abortController (heap w r))) then []
             else AbortCalled (info_abortController (heap w r)) # t)
          @ token_calls r (cancelToken (heap w r))
          @ (if verbose w then [RejectCalled r (cancel_message i)] else [])\<rparr>)"
    using assms t
    by (cases "cancelToken (heap w r)")
      (auto simp add: cancel_def and_then_def modify_def return_value_def mark_cancelled_def
        try_token_result rejectWrapper_def settle_def emit_def map_delete_def cancelled_info_def
        cancel_message_def token_calls_def)
  then show ?thesis using s by blast
qed


lemma cancel_signalless:
  assumes "map_of (activeRequests w) i = Some r"
    and "\<not> has_signal (controllers w (info_abortController (heap w r)))"
  shows "cancel i w = (Raised ''TypeError: signal is undefined'', mark_cancelled r w)"
  using assms
  by (simp add: cancel_def and_then_def modify_def raise_error_def mark_cancelled_def)

lemma typed_table_lookup:
  assumes "typed_table w" "map_of (activeRequests w) k = Some r"
  shows "typed_entry r w"
proof -
  have "(k, r) \<in> set (activeRequests w)" using assms(2) by (rule map_of_SomeD)
  then show ?thesis using assms(1) by (auto simp add: typed_table_def list_all_iff)
qed

lemma cancel_returns:
  assumes "\<forall>r. map_of (activeRequests w) i = Some r \<longrightarrow> typed_entry r w"
  shows "\<exists>found w'. cancel i w = (Returned found, w')"
proof (cases "map_of (activeRequests w) i")
  case None
  then show ?thesis using cancel_absent by blast
next
  case (Some r)
  then have "has_signal (controllers w (info_abortController (heap w r)))"
    using assms by (simp add: typed_entry_def)
  from cancel_present [OF Some this] show ?thesis by blast
qed

lemma cancel_keeps_typed:
  assumes "typed_entry r' w"
  shows "typed_entry r' (snd (cancel i w))"
proof (cases "map_of (activeRequests w) i")
  case None
  then show ?thesis using assms by (simp add: cancel_absent)
next
  case (Some r)
  show ?thesis
  proof (cases "has_signal (controllers w (info_abortController (heap w r)))")
    case False
    show ?thesis
      using assms by (auto simp add: cancel_signalless [OF Some False] typed_entry_def mark_cancelled_def)
  next
    case True
    from cancel_present [OF Some True] obtain w' where
      c: "cancel i w = (Returned True, w')"
      and hp: "heap w' = (heap w)(r := cancelled_info (verbose w) i (heap w r))"
      and ct: "controllers w' = (if aborted (controllers w (info_abortController (heap w r)))
                       then controllers w
                       else (controllers w)(info_abortController (heap w r) :=
                              abort_outcome (controllers w (info_abortController (heap w r)))))"
      by force
    have "info_abortController (heap w' r') = info_abortController (heap w r')"
      by (simp add: hp cancelled_info_def)
    moreover have "\<And>c. has_signal (controllers w' c) = has_signal (controllers w c)"
      by (simp add: ct abort_outcome_def)
    ultimately show ?thesis using assms by (simp add: c typed_entry_def)
  qed
qed

lemma cancel_keeps_other_keys:
  "k' \<noteq> i \<Longrightarrow> map_of (activeRequests (snd (cancel i w))) k' = map_of (activeRequests w) k'"
proof (cases "map_of (activeRequests w) i")
  case None
  then show ?thesis by (simp add: cancel_absent)
next
  case (Some r)
  assume ne: "k' \<noteq> i"
  show ?thesis
  proof (cases "has_signal (controllers w (info_abortController (heap w r)))")
    case False
    show ?thesis by (simp add: cancel_signalless [OF Some False] mark_cancelled_def)
  next
    case True
    from cancel_present [OF Some True] obtain w' where
      "cancel i w = (Returned True, w')"
      "activeRequests w' = AList.delete i (activeRequests w)"
      by force
    then show ?thesis using ne by (simp add: delete_conv')
  qed
qed

lemma cancel_each_returns:
  assumes "\<forall>k \<in> set ks. \<forall>r. map_of (activeRequests w) k = Some r \<longrightarrow> typed_entry r w"
    and "distinct ks"
  shows "\<exists>n' w'. cancel_each ks n w = (Returned n', w')"
  using assms
proof (induction ks arbitrary: n w)
  case Nil
  then show ?case by (simp add: return_value_def)
next
  case (Cons k ks)
  have "\<forall>r. map_of (activeRequests w) k = Some r \<longrightarrow> typed_entry r w"
    using Cons.prems(1) by simp
  from cancel_returns [OF this] obtain found w1 where c: "cancel k w = (Returned found, w1)"
    by blast
  have w1: "w1 = snd (cancel k w)" using c by simp
  have "\<forall>k' \<in> set ks. \<forall>r. map_of (activeRequests w1) k' = Some r \<longrightarrow> typed_entry r w1"
  proof (intro ballI allI impI)
    fix k' r assume k': "k' \<in> set ks" and m: "map_of (activeRequests w1) k' = Some r"
    have "k' \<noteq> k" using k' Cons.prems(2) by auto
    then have "map_of (activeRequests w) k' = Some r"
      using m cancel_keeps_other_keys [of k' k w] by (simp add: w1)
    then have "typed_entry r w" using Cons.prems(1) k' by simp
    then show "typed_entry r w1" unfolding w1 by (rule cancel_keeps_typed)
  qed
  moreover have "distinct ks" using Cons.prems(2) by simp
  ultimately show ?case using Cons.IH c by (simp add: and_then_def)
qed

lemma cancel_each_all:
  assumes "distinct ks" "\<forall>k \<in> set ks. map_of (activeRequests w) k \<noteq> None"
    and "\<forall>k \<in> set ks. \<forall>r. map_of (activeRequests w) k = Some r \<longrightarrow> typed_entry r w"
  shows "\<exists>w'. cancel_each ks n w = (Returned (n + length ks), w')
          \<and> activeRequests w' = filter (\<lambda>kv. fst kv \<notin> set ks) (activeRequests w)
          \<and> (\<forall>r. isCancelled (heap w r) \<longrightarrow> isCancelled (heap w' r))
          \<and> (\<forall>k \<in> set ks. \<forall>r. map_of (activeRequests w) k = Some r \<longrightarrow> isCancelled (heap w' r))"
  using assms
proof (induction ks arbitrary: n w)
  case Nil
  then show ?case by (simp add: return_value_def)
next
  case (Cons k ks)
  from Cons.prems obtain r where r: "map_of (activeRequests w) k = Some r" by auto
  have sg: "has_signal (controllers w (info_abortController (heap w r)))"
    using Cons.prems(3) r by (simp add: typed_entry_def)
  from cancel_present [OF r sg] obtain w1 where
    w1: "cancel k w = (Returned True, w1)"
    and tbl: "activeRequests w1 = AList.delete k (activeRequests w)"
    and hp: "heap w1 = (heap w)(r := cancelled_info (verbose w) k (heap w r))"
    by force
  have pres: "\<forall>k' \<in> set ks. map_of (activeRequests w1) k' = map_of (activeRequests w) k'"
    using Cons.prems(1) by (auto simp add: tbl delete_conv')
  have d: "distinct ks" using Cons.prems(1) by simp
  have ex: "\<forall>k' \<in> set ks. map_of (activeRequests w1) k' \<noteq> None"
    using pres Cons.prems(2) by simp
  have w1s: "w1 = snd (cancel k w)" using w1 by simp
  have ty: "\<forall>k' \<in> set ks. \<forall>r. map_of (activeRequests w1) k' = Some r \<longrightarrow> typed_entry r w1"
  proof (intro ballI allI impI)
    fix k' r' assume k': "k' \<in> set ks" and m: "map_of (activeRequests w1) k' = Some r'"
    then have "map_of (activeRequests w) k' = Some r'" using pres by simp
    then have "typed_entry r' w" using Cons.prems(3) k' by simp
    then show "typed_entry r' w1" unfolding w1s by (rule cancel_keeps_typed)
  qed
  from Cons.IH [OF d ex ty, of "Suc n"] obtain w' where
    run: "cancel_each ks (Suc n) w1 = (Returned (Suc n + length ks), w')"
    and tbl': "activeRequests w' = filter (\<lambda>kv. fst kv \<notin> set ks) (activeRequests w1)"
    and mono: "\<forall>r. isCancelled (heap w1 r) \<longrightarrow> isCancelled (heap w' r)"
    and all: "\<forall>k \<in> set ks. \<forall>r. map_of (activeRequests w1) k = Some r \<longrightarrow> isCancelled (heap w' r)"
    by blast
  have c1: "cancel_each (k # ks) n w = (Returned (n + length (k # ks)), w')"
    using w1 run by (simp add: and_then_def)
  have c2: "activeRequests w' = filter (\<lambda>kv. fst kv \<notin> set (k # ks)) (activeRequests w)"
    by (auto simp add: tbl' tbl AList.delete_eq intro!: filter_cong)
  have w1c: "\<forall>r'. isCancelled (heap w r') \<longrightarrow> isCancelled (heap w1 r')"
    by (simp add: hp cancelled_info_def)
  have rc: "isCancelled (heap w1 r)" by (simp add: hp cancelled_info_def)
  have c3: "\<forall>r. isCancelled (heap w r) \<longrightarrow> isCancelled (heap w' r)"
    using w1c mono by blast
  have c4: "\<forall>k' \<in> set (k # ks). \<forall>r. map_of (activeRequests w) k' = Some r \<longrightarrow> isCancelled (heap w' r)"
    using r rc mono all pres by auto
  show ?case using c1 c2 c3 c4 by blast
qed

subsection \<open>Cancelling in concrete managers\<close>

lemma two_requests_table:
  "activeRequests two_requests = [(''request_/api/a'', 0), (''request_/api/b'', 1)]"
  by (simp add: two_requests_def eval_defs)

lemma two_requests_typed: "typed_table two_requests"
  by (simp add: two_requests_def typed_table_def typed_entry_def eval_defs)


text \<open>
  With controllers that have a signal, nothing that the abort, the cancel token or a
  linked abort method does makes \<open>cancel\<close> or \<open>cancelAll\<close> raise.
\<close>

lemma cancellation_returns_when_typed:
  assumes "typed_table w" "distinct (map fst (activeRequests w))"
  shows "(\<exists>found w'. cancel i w = (Returned found, w'))
   \<and> (\<exists>n w'. cancelAll w = (Returned n, w'))
   \<and> (\<exists>w'. abort_listener c m w = (Returned (), w'))"
proof -
  have ty: "\<forall>k r. map_of (activeRequests w) k = Some r \<longrightarrow> typed_entry r w"
    using typed_table_lookup [OF assms(1)] by blast
  have a: "\<exists>found w'. cancel i w = (Returned found, w')"
    using cancel_returns [of w i] ty by blast
  have b: "\<exists>n w'. cancelAll w = (Returned n, w')"
    using cancel_each_returns [of "map fst (activeRequests w)" w 0] ty assms(2)
    by (simp add: cancelAll_def)
  have c: "\<exists>w'. abort_listener c m w = (Returned (), w')"
    using abort_listener_result [of c m w] by blast
  show ?thesis using a b c by blast
qed

lemma cancel_proxy:
  assumes "map_of (activeRequests w) i = Some r"
    and "has_signal (controllers w (info_abortController (heap w r)))"
  shows "wrapperPromise (heap (snd (cancel i w)) r) =
     (if verbose w \<and> wrapperPromise (heap w r) = Pending
      then Rejected (cancel_message i) else wrapperPromise (heap w r))"
  using cancel_present [OF assms] by (auto simp add: cancelled_info_def)

lemma created_verbose_then_quiet_fields:
  "activeRequests created_verbose_then_quiet = [(''request_/api/a'', 0)]
   \<and> verbose created_verbose_then_quiet = False
   \<and> info_verbose (heap created_verbose_then_quiet 0) = True
   \<and> wrapperPromise (heap created_verbose_then_quiet 0) = Pending
   \<and> has_signal (controllers created_verbose_then_quiet
         (info_abortController (heap created_verbose_then_quiet 0)))"
  by (simp add: created_verbose_then_quiet_def eval_defs)

lemma created_quiet_then_verbose_fields:
  "activeRequests created_quiet_then_verbose = [(''request_/api/a'', 0)]
   \<and> verbose created_quiet_then_verbose = True
   \<and> info_verbose (heap created_quiet_then_verbose 0) = False
   \<and> wrapperPromise (heap created_quiet_then_verbose 0) = Pending
   \<and> has_signal (controllers created_quiet_then_verbose
         (info_abortController (heap created_quiet_then_verbose 0)))"
  by (simp add: created_quiet_then_verbose_def eval_defs)

subsection \<open>Cancellation keeps the shape of a manager\<close>

lemma cancel_present_fields:
  assumes "map_of (activeRequests w) i = Some r"
    and "has_signal (controllers w (info_abortController (heap w r)))"
  shows "fst (cancel i w) = Returned True"
    "activeRequests (snd (cancel i w)) = AList.delete i (activeRequests w)"
    "heap (snd (cancel i w)) = (heap w)(r := cancelled_info (verbose w) i (heap w r))"
    "next_info (snd (cancel i w)) = next_info w"
    "next_controller (snd (cancel i w)) = next_controller w"
    "abortController (snd (cancel i w)) = abortController w"
    "verbose (snd (cancel i w)) = verbose w"
    "settled_refs (trace (snd (cancel i w))) = settled_refs (trace w) @ (if verbose w then [r] else [])"
    "controllers (snd (cancel i w)) =
       (if aborted (controllers w (info_abortController (heap w r)))
        then controllers w
        else (controllers w)(info_abortController (heap w r) :=
               abort_outcome (controllers w (info_abortController (heap w r)))))"
proof -
  from cancel_present [OF assms] obtain t where c: "cancel i w =
    (Returned True,
     w\<lparr>activeRequests := AList.delete i (activeRequests w),
       heap := (heap w)(r := cancelled_info (verbose w) i (heap w r)),
       controllers := (if aborted (controllers w (info_abortController (heap w r)))
                       then controllers w
                       else (controllers w)(info_abortController (heap w r) :=
                              abort_outcome (controllers w (info_abortController (heap w r))))),
       trace := trace w
          @ (if aborted (controllers w (info_abortController (heap w r))) then []
             else AbortCalled (info_abortController (heap w r)) # t)
          @ token_calls r (cancelToken (heap w r))
          @ (if verbose w then [RejectCalled r (cancel_message i)] else [])\<rparr>)"
    and s: "settled_refs t = []" by blast
  show "fst (cancel i w) = Returned True"
    "activeRequests (snd (cancel i w)) = AList.delete i (activeRequests w)"
    "heap (snd (cancel i w)) = (heap w)(r := cancelled_info (verbose w) i (heap w r))"
    "next_info (snd (cancel i w)) = next_info w"
    "next_controller (snd (cancel i w)) = next_controller w"
    "abortController (snd (cancel i w)) = abortController w"
    "verbose (snd (cancel i w)) = verbose w"
    "settled_refs (trace (snd (cancel i w))) = settled_refs (trace w) @ (if verbose w then [r] else [])"
    "controllers (snd (cancel i w)) =
       (if aborted (controllers w (info_abortController (heap w r)))
        then controllers w
        else (controllers w)(info_abortController (heap w r) :=
               abort_outcome (controllers w (info_abortController (heap w r)))))"
    by (simp_all add: c settled_refs_append settled_refs_token_calls s)
qed

lemma consistent_entry:
  assumes "consistent w" "(k, r) \<in> set (activeRequests w)"
  shows "r < next_info w" "info_requestId (heap w r) = k"
    "wrapperPromise (heap w r) = Pending" "r \<notin> set (settled_refs (trace w))"
  using assms by (auto simp add: consistent_def list_all_iff)

lemma set_delete: "set (AList.delete k al) = {kv \<in> set al. fst kv \<noteq> k}"
  by (auto simp add: AList.delete_eq)

lemma delete_drops_ref:
  assumes "consistent w" "map_of (activeRequests w) k = Some r"
  shows "r \<notin> snd ` set (AList.delete k (activeRequests w))"
proof
  assume "r \<in> snd ` set (AList.delete k (activeRequests w))"
  then obtain k' where k': "(k', r) \<in> set (activeRequests w)" "k' \<noteq> k"
    by (auto simp add: set_delete)
  have "(k, r) \<in> set (activeRequests w)" using assms(2) by (rule map_of_SomeD)
  then have "info_requestId (heap w r) = k" using assms(1) consistent_entry(2) by blast
  moreover have "info_requestId (heap w r) = k'" using assms(1) k'(1) consistent_entry(2) by blast
  ultimately show False using k'(2) by simp
qed

lemma consistent_cancel: "consistent w \<Longrightarrow> consistent (snd (cancel i w))"
proof (cases "map_of (activeRequests w) i")
  case None
  assume "consistent w"
  then show ?thesis using None by (simp add: cancel_absent)
next
  case (Some r)
  assume cw: "consistent w"
  have mem: "(i, r) \<in> set (activeRequests w)" using Some by (rule map_of_SomeD)
  show ?thesis
  proof (cases "has_signal (controllers w (info_abortController (heap w r)))")
    case False
    have "consistent (mark_cancelled r w)"
      using cw by (auto simp add: consistent_def mark_cancelled_def list_all_iff split: option.splits)
    then show ?thesis by (simp add: cancel_signalless [OF Some False])
  next
    case True
    note e = consistent_entry [OF cw mem]
    define w' where "w' = snd (cancel i w)"
    note f = cancel_present_fields [OF Some True, folded w'_def]
    note tb = f(2) and hp = f(3) and ni = f(4) and nc = f(5) and sl = f(6) and st = f(8)
    have gone: "r \<notin> snd ` set (AList.delete i (activeRequests w))"
      using delete_drops_ref [OF cw Some] .
    have other: "\<And>k r'. (k, r') \<in> set (AList.delete i (activeRequests w)) \<Longrightarrow>
        r' \<noteq> r \<and> (k, r') \<in> set (activeRequests w)"
      using gone by (force simp add: set_delete)
    have d1: "distinct (map fst (activeRequests w'))"
      using cw by (simp add: tb consistent_def distinct_delete)
    have d2: "list_all (\<lambda>kr. snd kr < next_info w'
                        \<and> info_requestId (heap w' (snd kr)) = fst kr
                        \<and> wrapperPromise (heap w' (snd kr)) = Pending
                        \<and> snd kr \<notin> set (settled_refs (trace w'))) (activeRequests w')"
      unfolding list_all_iff tb
    proof
      fix kr assume a: "kr \<in> set (AList.delete i (activeRequests w))"
      obtain k r' where kr: "kr = (k, r')" by (cases kr)
      from other [of k r'] a kr have ne: "r' \<noteq> r" and m: "(k, r') \<in> set (activeRequests w)" by auto
      note e' = consistent_entry [OF cw m]
      show "snd kr < next_info w' \<and> info_requestId (heap w' (snd kr)) = fst kr
          \<and> wrapperPromise (heap w' (snd kr)) = Pending
          \<and> snd kr \<notin> set (settled_refs (trace w'))"
        using e' ne by (simp add: kr ni hp st)
    qed
    have d3: "list_all (\<lambda>r. r < next_info w') (settled_refs (trace w'))"
      using cw e(1) by (simp add: st ni consistent_def)
    have d4: "distinct (settled_refs (trace w'))"
      using cw e(4) by (simp add: st consistent_def)
    have d5: "(case abortController w' of None \<Rightarrow> True | Some c \<Rightarrow> c < next_controller w')"
      using cw by (simp add: sl nc consistent_def split: option.splits)
    show ?thesis
      unfolding consistent_def w'_def [symmetric] using d1 d2 d3 d4 d5 by blast
  qed
qed

lemma evolves_refl: "evolves w w"
  by (simp add: evolves_def)

lemma evolves_trans:
  assumes "evolves w w'" "evolves w' w''"
  shows "evolves w w''"
proof -
  have a: "next_info w \<le> next_info w''" using assms by (simp add: evolves_def)
  have b: "next_controller w \<le> next_controller w''" using assms by (simp add: evolves_def)
  have c: "\<And>r. detached r w \<Longrightarrow> detached r w'' \<and> heap w'' r = heap w r"
  proof -
    fix r assume d: "detached r w"
    then have d1: "detached r w'" "heap w' r = heap w r"
      using assms(1) by (simp_all add: evolves_def)
    then have "detached r w''" "heap w'' r = heap w' r"
      using assms(2) by (simp_all add: evolves_def)
    with d1 show "detached r w'' \<and> heap w'' r = heap w r" by simp
  qed
  show ?thesis using a b c by (simp add: evolves_def)
qed

lemma evolves_cancel: "evolves w (snd (cancel i w))"
proof (cases "map_of (activeRequests w) i")
  case None
  then show ?thesis by (simp add: cancel_absent evolves_refl)
next
  case (Some r)
  have mem: "(i, r) \<in> set (activeRequests w)" using Some by (rule map_of_SomeD)
  show ?thesis
  proof (cases "has_signal (controllers w (info_abortController (heap w r)))")
    case False
    have "\<And>r0. detached r0 w \<Longrightarrow> r0 \<noteq> r" using mem by (force simp add: detached_def)
    then have "evolves w (mark_cancelled r w)"
      by (simp add: evolves_def detached_def mark_cancelled_def)
    then show ?thesis by (simp add: cancel_signalless [OF Some False])
  next
    case True
    define w' where "w' = snd (cancel i w)"
    note f = cancel_present_fields [OF Some True, folded w'_def]
    note tb = f(2) and hp = f(3) and ni = f(4) and nc = f(5)
    have "\<And>r0. detached r0 w \<Longrightarrow> detached r0 w' \<and> heap w' r0 = heap w r0"
    proof -
      fix r0 assume d: "detached r0 w"
      then have "r0 \<noteq> r" using mem by (force simp add: detached_def)
      moreover have "r0 \<notin> snd ` set (AList.delete i (activeRequests w))"
        using d by (force simp add: detached_def set_delete)
      ultimately show "detached r0 w' \<and> heap w' r0 = heap w r0"
        using d by (simp add: detached_def tb hp ni)
    qed
    then show ?thesis using ni nc by (simp add: w'_def evolves_def)
  qed
qed

lemma consistent_cancel_each: "consistent w \<Longrightarrow> consistent (snd (cancel_each ks n w))"
proof (induction ks arbitrary: n w)
  case Nil
  then show ?case by (simp add: return_value_def)
next
  case (Cons k ks)
  obtain res w1 where c: "cancel k w = (res, w1)" by (cases "cancel k w")
  have c1: "consistent w1" using consistent_cancel [OF Cons.prems, of k] c by simp
  show ?case
  proof (cases res)
    case (Raised e)
    then show ?thesis using c c1 by (simp add: and_then_def)
  next
    case (Returned found)
    then show ?thesis using Cons.IH [OF c1] c by (simp add: and_then_def)
  qed
qed

lemma evolves_cancel_each: "evolves w (snd (cancel_each ks n w))"
proof (induction ks arbitrary: n w)
  case Nil
  then show ?case by (simp add: return_value_def evolves_refl)
next
  case (Cons k ks)
  obtain res w1 where c: "cancel k w = (res, w1)" by (cases "cancel k w")
  have e1: "evolves w w1" using evolves_cancel [of w k] c by simp
  show ?case
  proof (cases res)
    case (Raised e)
    then show ?thesis using c e1 by (simp add: and_then_def)
  next
    case (Returned found)
    have "evolves w1 (snd (cancel_each ks (if found then Suc n else n) w1))"
      using Cons.IH .
    with e1 have "evolves w (snd (cancel_each ks (if found then Suc n else n) w1))"
      by (rule evolves_trans)
    then show ?thesis using c Returned by (simp add: and_then_def)
  qed
qed

subsection \<open>Completions keep the shape of a manager\<close>

lemma consistent_frame:
  assumes "consistent w" "activeRequests w' = activeRequests w" "heap w' = heap w"
    "next_info w' = next_info w" "settled_refs (trace w') = settled_refs (trace w)"
    "case abortController w' of None \<Rightarrow> True | Some c \<Rightarrow> c < next_controller w'"
  shows "consistent w'"
  using assms(1) assms(6) unfolding consistent_def assms(2-5) by blast

lemma evolves_frame:
  assumes "activeRequests w' = activeRequests w" "heap w' = heap w"
    "next_info w' = next_info w" "next_controller w \<le> next_controller w'"
  shows "evolves w w'"
  using assms by (simp add: evolves_def detached_def)

lemma consistent_remove:
  assumes cw: "consistent w" and look: "map_of (activeRequests w) k = Some r"
    and tb: "activeRequests w' = AList.delete k (activeRequests w)"
    and hp: "heap w' = (heap w)(r := x)"
    and ni: "next_info w' = next_info w"
    and nc: "next_controller w' = next_controller w"
    and sl: "abortController w' = abortController w"
    and st: "settled_refs (trace w') = settled_refs (trace w) @ s"
    and s: "s = [] \<or> s = [r]"
  shows "consistent w'"
proof -
  have mem: "(k, r) \<in> set (activeRequests w)" using look by (rule map_of_SomeD)
  note e = consistent_entry [OF cw mem]
  have gone: "r \<notin> snd ` set (AList.delete k (activeRequests w))"
    using delete_drops_ref [OF cw look] .
  have other: "\<And>k' r'. (k', r') \<in> set (AList.delete k (activeRequests w)) \<Longrightarrow>
      r' \<noteq> r \<and> (k', r') \<in> set (activeRequests w)"
    using gone by (force simp add: set_delete)
  have d1: "distinct (map fst (activeRequests w'))"
    using cw by (simp add: tb consistent_def distinct_delete)
  have d2: "list_all (\<lambda>kr. snd kr < next_info w'
                      \<and> info_requestId (heap w' (snd kr)) = fst kr
                      \<and> wrapperPromise (heap w' (snd kr)) = Pending
                      \<and> snd kr \<notin> set (settled_refs (trace w'))) (activeRequests w')"
    unfolding list_all_iff tb
  proof
    fix kr assume a: "kr \<in> set (AList.delete k (activeRequests w))"
    obtain k' r' where kr: "kr = (k', r')" by (cases kr)
    from other [of k' r'] a kr have ne: "r' \<noteq> r" and m: "(k', r') \<in> set (activeRequests w)" by auto
    note e' = consistent_entry [OF cw m]
    show "snd kr < next_info w' \<and> info_requestId (heap w' (snd kr)) = fst kr
        \<and> wrapperPromise (heap w' (snd kr)) = Pending
        \<and> snd kr \<notin> set (settled_refs (trace w'))"
      using e' ne s by (auto simp add: kr ni hp st)
  qed
  have d3: "list_all (\<lambda>r. r < next_info w') (settled_refs (trace w'))"
    using cw e(1) s by (auto simp add: st ni consistent_def)
  have d4: "distinct (settled_refs (trace w'))"
    using cw e(4) s by (auto simp add: st consistent_def)
  have d5: "(case abortController w' of None \<Rightarrow> True | Some c \<Rightarrow> c < next_controller w')"
    using cw by (simp add: sl nc consistent_def split: option.splits)
  show ?thesis unfolding consistent_def using d1 d2 d3 d4 d5 by blast
qed

lemma evolves_remove:
  assumes look: "map_of (activeRequests w) k = Some r"
    and tb: "activeRequests w' = AList.delete k (activeRequests w)"
    and hp: "heap w' = (heap w)(r := x)"
    and ni: "next_info w' = next_info w"
    and nc: "next_controller w' = next_controller w"
  shows "evolves w w'"
proof -
  have mem: "(k, r) \<in> set (activeRequests w)" using look by (rule map_of_SomeD)
  have "\<And>r0. detached r0 w \<Longrightarrow> detached r0 w' \<and> heap w' r0 = heap w r0"
  proof -
    fix r0 assume d: "detached r0 w"
    then have "r0 \<noteq> r" using mem by (force simp add: detached_def)
    moreover have "r0 \<notin> snd ` set (AList.delete k (activeRequests w))"
      using d by (force simp add: detached_def set_delete)
    ultimately show "detached r0 w' \<and> heap w' r0 = heap w r0"
      using d by (simp add: detached_def tb hp ni)
  qed
  then show ?thesis using ni nc by (simp add: evolves_def)
qed

lemma consistent_onFulfilled: "consistent w \<Longrightarrow> consistent (onFulfilled r res w)"
proof (cases "map_of (activeRequests w) (info_requestId (heap w r)) = Some r \<and> \<not> isCancelled (heap w r)")
  case False
  assume "consistent w"
  with False show ?thesis by (auto simp add: onFulfilled_def)
next
  case True
  assume cw: "consistent w"
  let ?k = "info_requestId (heap w r)"
  let ?w' = "onFulfilled r res w"
  let ?x = "(heap w r)\<lparr>wrapperPromise :=
      (if wrapperPromise (heap w r) = Pending then Fulfilled res else wrapperPromise (heap w r))\<rparr>"
  have look: "map_of (activeRequests w) ?k = Some r" using True by simp
  show ?thesis
  proof (rule consistent_remove [OF cw look, where x = ?x and s = "[r]"])
    show "activeRequests ?w' = AList.delete ?k (activeRequests w)"
      using True by (simp add: onFulfilled_def resolveWrapper_def settle_def emit_def map_delete_def)
    show "heap ?w' = (heap w)(r := ?x)"
      using True by (auto simp add: onFulfilled_def resolveWrapper_def settle_def emit_def map_delete_def)
    show "next_info ?w' = next_info w"
      using True by (simp add: onFulfilled_def resolveWrapper_def settle_def emit_def map_delete_def)
    show "next_controller ?w' = next_controller w"
      using True by (simp add: onFulfilled_def resolveWrapper_def settle_def emit_def map_delete_def)
    show "abortController ?w' = abortController w"
      using True by (simp add: onFulfilled_def resolveWrapper_def settle_def emit_def map_delete_def)
    show "settled_refs (trace ?w') = settled_refs (trace w) @ [r]"
      using True by (simp add: onFulfilled_def resolveWrapper_def settle_def emit_def map_delete_def
          settled_refs_append)
    show "[r] = [] \<or> [r] = [r]" by simp
  qed
qed

lemma evolves_onFulfilled: "evolves w (onFulfilled r res w)"
proof (cases "map_of (activeRequests w) (info_requestId (heap w r)) = Some r \<and> \<not> isCancelled (heap w r)")
  case False
  then show ?thesis by (auto simp add: onFulfilled_def evolves_refl)
next
  case True
  let ?k = "info_requestId (heap w r)"
  let ?w' = "onFulfilled r res w"
  let ?x = "(heap w r)\<lparr>wrapperPromise :=
      (if wrapperPromise (heap w r) = Pending then Fulfilled res else wrapperPromise (heap w r))\<rparr>"
  have look: "map_of (activeRequests w) ?k = Some r" using True by simp
  show ?thesis
  proof (rule evolves_remove [OF look, where x = ?x])
    show "activeRequests ?w' = AList.delete ?k (activeRequests w)"
      using True by (simp add: onFulfilled_def resolveWrapper_def settle_def emit_def map_delete_def)
    show "heap ?w' = (heap w)(r := ?x)"
      using True by (auto simp add: onFulfilled_def resolveWrapper_def settle_def emit_def map_delete_def)
    show "next_info ?w' = next_info w"
      using True by (simp add: onFulfilled_def resolveWrapper_def settle_def emit_def map_delete_def)
    show "next_controller ?w' = next_controller w"
      using True by (simp add: onFulfilled_def resolveWrapper_def settle_def emit_def map_delete_def)
  qed
qed

lemma onError_current:
  assumes "map_of (activeRequests w) (info_requestId (heap w r)) = Some r"
  shows "activeRequests (onError r err w) = AList.delete (info_requestId (heap w r)) (activeRequests w)"
    "heap (onError r err w) = (heap w)(r := onError_info err (heap w r))"
    "next_info (onError r err w) = next_info w"
    "next_controller (onError r err w) = next_controller w"
    "abortController (onError r err w) = abortController w"
    "settled_refs (trace (onError r err w)) = settled_refs (trace w)
        @ (if \<not> isCancelled (heap w r) \<or> info_verbose (heap w r) then [r] else [])"
  using assms
  by (auto simp add: onError_def rejectWrapper_def settle_def emit_def map_delete_def Let_def
      onError_info_def settled_refs_append)

lemma onError_stale:
  "map_of (activeRequests w) (info_requestId (heap w r)) \<noteq> Some r \<Longrightarrow> onError r err w = w"
  by (simp add: onError_def)

lemma consistent_onError: "consistent w \<Longrightarrow> consistent (onError r err w)"
proof (cases "map_of (activeRequests w) (info_requestId (heap w r)) = Some r")
  case False
  assume "consistent w"
  with False show ?thesis by (simp add: onError_stale)
next
  case True
  assume cw: "consistent w"
  note f = onError_current [OF True, of err]
  show ?thesis
    by (rule consistent_remove [OF cw True f(1) f(2) f(3) f(4) f(5) f(6)]) simp
qed

lemma evolves_onError: "evolves w (onError r err w)"
proof (cases "map_of (activeRequests w) (info_requestId (heap w r)) = Some r")
  case False
  then show ?thesis by (simp add: onError_stale evolves_refl)
next
  case True
  note f = onError_current [OF True, of err]
  show ?thesis by (rule evolves_remove [OF True f(1) f(2) f(3) f(4)])
qed

lemma consistent_onTimeout: "consistent w \<Longrightarrow> consistent (onTimeout r w)"
  by (cases "promise (heap w r)") (simp_all add: onTimeout_def consistent_onFulfilled)

lemma evolves_onTimeout: "evolves w (onTimeout r w)"
  by (cases "promise (heap w r)") (simp_all add: onTimeout_def evolves_onFulfilled evolves_refl)

subsection \<open>Registration and controllers\<close>

lemma set_update_subset: "set (AList.update k v al) \<subseteq> insert (k, v) (set al)"
  by (induction al) auto

lemma register_fields:
  "fst (register i p ac opts w) = Returned (next_info w)"
  "activeRequests (snd (register i p ac opts w)) = AList.update i (next_info w) (activeRequests w)"
  "heap (snd (register i p ac opts w)) = (heap w)(next_info w :=
      \<lparr>info_requestId = i, promise = p, info_abortController = ac,
       cancelToken = opt_cancelToken opts, wrapperPromise = Pending,
       isCancelled = False, info_verbose = verbose w\<rparr>)"
  "next_info (snd (register i p ac opts w)) = Suc (next_info w)"
  "next_controller (snd (register i p ac opts w)) = next_controller w"
  "abortController (snd (register i p ac opts w)) = abortController w"
  "trace (snd (register i p ac opts w)) = trace w"
  "controllers (snd (register i p ac opts w)) = controllers w"
  "verbose (snd (register i p ac opts w)) = verbose w"
  by (simp_all add: register_def map_set_def return_value_def Let_def)

lemma consistent_register:
  assumes cw: "consistent w"
  shows "consistent (snd (register i p ac opts w))"
proof -
  let ?w' = "snd (register i p ac opts w)"
  note f = register_fields [of i p ac opts w]
  have d1: "distinct (map fst (activeRequests ?w'))"
    using cw by (simp add: f(2) consistent_def distinct_update)
  have d2: "list_all (\<lambda>kr. snd kr < next_info ?w'
                      \<and> info_requestId (heap ?w' (snd kr)) = fst kr
                      \<and> wrapperPromise (heap ?w' (snd kr)) = Pending
                      \<and> snd kr \<notin> set (settled_refs (trace ?w'))) (activeRequests ?w')"
    unfolding list_all_iff f(2)
  proof
    fix kr assume a: "kr \<in> set (AList.update i (next_info w) (activeRequests w))"
    then have "kr = (i, next_info w) \<or> kr \<in> set (activeRequests w)"
      using set_update_subset [of i "next_info w" "activeRequests w"] by blast
    then show "snd kr < next_info ?w' \<and> info_requestId (heap ?w' (snd kr)) = fst kr
        \<and> wrapperPromise (heap ?w' (snd kr)) = Pending
        \<and> snd kr \<notin> set (settled_refs (trace ?w'))"
    proof
      assume n: "kr = (i, next_info w)"
      have "next_info w \<notin> set (settled_refs (trace w))"
        using cw by (auto simp add: consistent_def list_all_iff)
      then show ?thesis by (simp add: n f)
    next
      assume "kr \<in> set (activeRequests w)"
      then have m: "(fst kr, snd kr) \<in> set (activeRequests w)" by simp
      note e = consistent_entry [OF cw m]
      show ?thesis using e by (simp add: f)
    qed
  qed
  have d3: "list_all (\<lambda>r. r < next_info ?w') (settled_refs (trace ?w'))"
    using cw by (auto simp add: f consistent_def list_all_iff)
  have d4: "distinct (settled_refs (trace ?w'))"
    using cw by (simp add: f consistent_def)
  have d5: "(case abortController ?w' of None \<Rightarrow> True | Some c \<Rightarrow> c < next_controller ?w')"
    using cw by (simp add: f consistent_def split: option.splits)
  show ?thesis unfolding consistent_def using d1 d2 d3 d4 d5 by blast
qed

lemma evolves_register: "evolves w (snd (register i p ac opts w))"
proof -
  let ?w' = "snd (register i p ac opts w)"
  note f = register_fields [of i p ac opts w]
  have "\<And>r0. detached r0 w \<Longrightarrow> detached r0 ?w' \<and> heap ?w' r0 = heap w r0"
  proof -
    fix r0 assume d: "detached r0 w"
    then have ne: "r0 \<noteq> next_info w" by (simp add: detached_def)
    have "snd ` set (AList.update i (next_info w) (activeRequests w))
        \<subseteq> insert (next_info w) (snd ` set (activeRequests w))"
      using set_update_subset [of i "next_info w" "activeRequests w"] by force
    then have "r0 \<notin> snd ` set (AList.update i (next_info w) (activeRequests w))"
      using d ne by (auto simp add: detached_def)
    then show "detached r0 ?w' \<and> heap ?w' r0 = heap w r0"
      using d ne by (simp add: detached_def f)
  qed
  then show ?thesis by (simp add: evolves_def f)
qed

lemma consistent_attach: "consistent w \<Longrightarrow> consistent (attach r p w)"
  by (auto simp add: attach_def consistent_onError split: underlying.splits then_result.splits)

lemma evolves_attach: "evolves w (attach r p w)"
  by (auto simp add: attach_def evolves_onError evolves_refl split: underlying.splits then_result.splits)

lemma getAbortController_fields:
  "activeRequests (snd (getAbortController w)) = activeRequests w"
  "heap (snd (getAbortController w)) = heap w"
  "next_info (snd (getAbortController w)) = next_info w"
  "trace (snd (getAbortController w)) = trace w"
  "verbose (snd (getAbortController w)) = verbose w"
  "next_controller w \<le> next_controller (snd (getAbortController w))"
  by (simp_all add: getAbortController_def new_AbortController_def Let_def split: option.splits)

lemma getAbortController_slot:
  assumes "case abortController w of None \<Rightarrow> True | Some c \<Rightarrow> c < next_controller w"
  shows "\<exists>c. fst (getAbortController w) = Own c
          \<and> abortController (snd (getAbortController w)) = Some c
          \<and> c < next_controller (snd (getAbortController w))
          \<and> \<not> aborted (controllers (snd (getAbortController w)) (Own c))"
  using assms
  by (auto simp add: getAbortController_def new_AbortController_def Let_def split: option.splits)

lemma consistent_getAbortController:
  assumes "consistent w"
  shows "consistent (snd (getAbortController w))"
proof (rule consistent_frame [OF assms])
  have "case abortController w of None \<Rightarrow> True | Some c \<Rightarrow> c < next_controller w"
    using assms by (simp add: consistent_def)
  from getAbortController_slot [OF this]
  show "case abortController (snd (getAbortController w)) of None \<Rightarrow> True
        | Some c \<Rightarrow> c < next_controller (snd (getAbortController w))"
    by auto
qed (simp_all add: getAbortController_fields)

lemma evolves_getAbortController: "evolves w (snd (getAbortController w))"
  by (rule evolves_frame) (simp_all add: getAbortController_fields)

lemma choose_controller_fields:
  "activeRequests (snd (choose_controller opts w)) = activeRequests w"
  "heap (snd (choose_controller opts w)) = heap w"
  "next_info (snd (choose_controller opts w)) = next_info w"
  "trace (snd (choose_controller opts w)) = trace w"
  "verbose (snd (choose_controller opts w)) = verbose w"
  "next_controller w \<le> next_controller (snd (choose_controller opts w))"
  by (simp_all add: choose_controller_def getAbortController_def new_AbortController_def Let_def
      flushRequestOptions_def clearAbortController_def setRequestOptions_def split: option.splits)

lemma choose_controller_fresh:
  assumes "opt_abortController opts = None"
  shows "fst (choose_controller opts w) = Own (next_controller w)"
    "abortController (snd (choose_controller opts w)) = Some (next_controller w)"
    "next_controller (snd (choose_controller opts w)) = Suc (next_controller w)"
    "controllers (snd (choose_controller opts w)) = (controllers w)
        (Own (next_controller w) := \<lparr>has_signal = True, aborted = False, abort_throws = False, listeners = []\<rparr>)"
  using assms
  by (simp_all add: choose_controller_def getAbortController_def new_AbortController_def Let_def
      flushRequestOptions_def clearAbortController_def setRequestOptions_def)

lemma choose_controller_given:
  assumes "opt_abortController opts = Some c"
  shows "fst (choose_controller opts w) = c"
    "abortController (snd (choose_controller opts w)) = abortController w"
    "next_controller (snd (choose_controller opts w)) = next_controller w"
    "controllers (snd (choose_controller opts w)) = controllers w"
  using assms
  by (simp_all add: choose_controller_def flushRequestOptions_def setRequestOptions_def)

lemma consistent_choose_controller:
  assumes "consistent w"
  shows "consistent (snd (choose_controller opts w))"
proof (rule consistent_frame [OF assms])
  show "case abortController (snd (choose_controller opts w)) of None \<Rightarrow> True
        | Some c \<Rightarrow> c < next_controller (snd (choose_controller opts w))"
  proof (cases "opt_abortController opts")
    case None
    then show ?thesis by (simp add: choose_controller_fresh)
  next
    case (Some c)
    then show ?thesis using assms by (simp add: choose_controller_given consistent_def split: option.splits)
  qed
qed (simp_all add: choose_controller_fields)

lemma evolves_choose_controller: "evolves w (snd (choose_controller opts w))"
  by (rule evolves_frame) (simp_all add: choose_controller_fields)

lemma obtain_underlying_fields:
  "activeRequests (snd (obtain_underlying inp opts ac w)) = activeRequests w"
  "heap (snd (obtain_underlying inp opts ac w)) = heap w"
  "next_info (snd (obtain_underlying inp opts ac w)) = next_info w"
  "next_controller (snd (obtain_underlying inp opts ac w)) = next_controller w"
  "abortController (snd (obtain_underlying inp opts ac w)) = abortController w"
  "controllers (snd (obtain_underlying inp opts ac w)) = controllers w"
  "verbose (snd (obtain_underlying inp opts ac w)) = verbose w"
  "settled_refs (trace (snd (obtain_underlying inp opts ac w))) = settled_refs (trace w)"
  "trace (snd (obtain_underlying inp opts ac w)) = trace w @
     (case inp of Given p \<Rightarrow> []
      | Supplier res \<Rightarrow> [SupplierCalled (prepareFetchOptions opts ac)]
      | UrlString url \<Rightarrow> [FetchCalled url (prepareFetchOptions opts ac)])"
  by (simp_all add: obtain_underlying_def and_then_def modify_def emit_def return_value_def
      raise_error_def settled_refs_append split: request_input.splits supplier_result.splits)

lemma consistent_obtain_underlying:
  assumes "consistent w"
  shows "consistent (snd (obtain_underlying inp opts ac w))"
proof (rule consistent_frame [OF assms])
  show "case abortController (snd (obtain_underlying inp opts ac w)) of None \<Rightarrow> True
        | Some c \<Rightarrow> c < next_controller (snd (obtain_underlying inp opts ac w))"
    using assms by (simp add: obtain_underlying_fields(1-8) consistent_def split: option.splits)
qed (simp_all add: obtain_underlying_fields(1-8))

lemma evolves_obtain_underlying: "evolves w (snd (obtain_underlying inp opts ac w))"
  by (rule evolves_frame) (simp_all add: obtain_underlying_fields(1-8))

subsection \<open>The stages of a request\<close>

lemma private_request_unfold:
  "private_request i inp opts w =
     (case obtain_underlying inp opts (fst (choose_controller opts w)) (snd (choose_controller opts w)) of
        (Raised e, wb) \<Rightarrow> (Raised e, wb)
      | (Returned p, wb) \<Rightarrow>
          (case cancel_outcome i opts wb of
             Raised e \<Rightarrow> (Raised e, after_cancel i opts wb)
           | Returned found \<Rightarrow>
               (Returned (next_info (after_cancel i opts wb)),
                attach (next_info (after_cancel i opts wb)) p
                  (snd (register i p (fst (choose_controller opts w)) opts (after_cancel i opts wb))))))"
proof (cases "opt_abortController opts")
  case None
  obtain ac wa where g: "getAbortController (w\<lparr>abortController := None, options := None\<rparr>) = (ac, wa)"
    by (cases "getAbortController (w\<lparr>abortController := None, options := None\<rparr>)")
  obtain res wb where o: "obtain_underlying inp opts ac wa = (res, wb)"
    by (cases "obtain_underlying inp opts ac wa")
  obtain kres wc where k: "cancel i wb = (kres, wc)" by (cases "cancel i wb")
  show ?thesis
    using None g o k
    by (cases res; cases kres)
      (simp_all add: private_request_def and_then_def modify_def return_value_def
        choose_controller_def setRequestOptions_def clearAbortController_def
        flushRequestOptions_def after_cancel_def cancel_outcome_def register_def Let_def)
next
  case (Some ac)
  obtain res wb where o: "obtain_underlying inp opts ac (w\<lparr>options := None\<rparr>) = (res, wb)"
    by (cases "obtain_underlying inp opts ac (w\<lparr>options := None\<rparr>)")
  obtain kres wc where k: "cancel i wb = (kres, wc)" by (cases "cancel i wb")
  show ?thesis
    using Some o k
    by (cases res; cases kres)
      (simp_all add: private_request_def and_then_def modify_def return_value_def
        choose_controller_def setRequestOptions_def clearAbortController_def
        flushRequestOptions_def after_cancel_def cancel_outcome_def register_def Let_def)
qed

lemma private_request_state:
  assumes "obtain_underlying inp opts (fst (choose_controller opts w)) (snd (choose_controller opts w))
       = (Returned p, wb)"
  shows "snd (private_request i inp opts w) = after_cancel i opts wb
       \<or> snd (private_request i inp opts w)
           = attach (next_info (after_cancel i opts wb)) p
               (snd (register i p (fst (choose_controller opts w)) opts (after_cancel i opts wb)))"
  using assms by (cases "cancel_outcome i opts wb") (simp_all add: private_request_unfold)

lemma consistent_after_cancel: "consistent w \<Longrightarrow> consistent (after_cancel i opts w)"
  by (simp add: after_cancel_def consistent_cancel)

lemma evolves_after_cancel: "evolves w (after_cancel i opts w)"
  by (simp add: after_cancel_def evolves_cancel evolves_refl)

lemma consistent_private_request:
  assumes "consistent w"
  shows "consistent (snd (private_request i inp opts w))"
proof -
  let ?ac = "fst (choose_controller opts w)"
  let ?wa = "snd (choose_controller opts w)"
  obtain res wb where o: "obtain_underlying inp opts ?ac ?wa = (res, wb)"
    by (cases "obtain_underlying inp opts ?ac ?wa")
  have cb: "consistent wb"
    using consistent_obtain_underlying [OF consistent_choose_controller [OF assms], of inp opts ?ac opts] o
    by simp
  show ?thesis
  proof (cases res)
    case (Raised e)
    then show ?thesis using cb o by (simp add: private_request_unfold)
  next
    case (Returned p)
    have "consistent (attach (next_info (after_cancel i opts wb)) p
             (snd (register i p ?ac opts (after_cancel i opts wb))))"
      by (intro consistent_attach consistent_register consistent_after_cancel cb)
    moreover have "consistent (after_cancel i opts wb)"
      by (intro consistent_after_cancel cb)
    ultimately show ?thesis
      using private_request_state [of inp opts w p wb i] Returned o by auto
  qed
qed

lemma evolves_private_request: "evolves w (snd (private_request i inp opts w))"
proof -
  let ?ac = "fst (choose_controller opts w)"
  let ?wa = "snd (choose_controller opts w)"
  obtain res wb where o: "obtain_underlying inp opts ?ac ?wa = (res, wb)"
    by (cases "obtain_underlying inp opts ?ac ?wa")
  have e1: "evolves w ?wa" by (rule evolves_choose_controller)
  have "evolves ?wa wb" using evolves_obtain_underlying [of ?wa inp opts ?ac] o by simp
  with e1 have eb: "evolves w wb" by (rule evolves_trans)
  show ?thesis
  proof (cases res)
    case (Raised e)
    then show ?thesis using eb o by (simp add: private_request_unfold)
  next
    case (Returned p)
    let ?wc = "after_cancel i opts wb"
    let ?wd = "snd (register i p ?ac opts ?wc)"
    have "evolves wb ?wc" by (rule evolves_after_cancel)
    with eb have "evolves w ?wc" by (rule evolves_trans)
    moreover have "evolves ?wc ?wd" by (rule evolves_register)
    ultimately have "evolves w ?wd" by (rule evolves_trans)
    moreover have "evolves ?wd (attach (next_info ?wc) p ?wd)" by (rule evolves_attach)
    ultimately have "evolves w (attach (next_info ?wc) p ?wd)" by (rule evolves_trans)
    moreover have "evolves w ?wc" using eb \<open>evolves wb ?wc\<close> by (rule evolves_trans)
    ultimately show ?thesis
      using private_request_state [of inp opts w p wb i] Returned o by auto
  qed
qed

subsection \<open>Every event keeps the shape of a manager\<close>

lemma abort_fields:
  "activeRequests (snd (abort c w)) = activeRequests w"
  "heap (snd (abort c w)) = heap w"
  "next_info (snd (abort c w)) = next_info w"
  "next_controller (snd (abort c w)) = next_controller w"
  "abortController (snd (abort c w)) = abortController w"
  "verbose (snd (abort c w)) = verbose w"
  "settled_refs (trace (snd (abort c w))) = settled_refs (trace w)"
proof -
  obtain res t where a: "abort c w =
     (res, w\<lparr>controllers := (controllers w)(c := abort_outcome (controllers w c)),
            trace := trace w @ AbortCalled c # t\<rparr>)" and s: "settled_refs t = []"
    using abort_result by blast
  show "activeRequests (snd (abort c w)) = activeRequests w"
    "heap (snd (abort c w)) = heap w"
    "next_info (snd (abort c w)) = next_info w"
    "next_controller (snd (abort c w)) = next_controller w"
    "abortController (snd (abort c w)) = abortController w"
    "verbose (snd (abort c w)) = verbose w"
    "settled_refs (trace (snd (abort c w))) = settled_refs (trace w)"
    by (simp_all add: a s settled_refs_append)
qed

lemma consistent_step:
  assumes "consistent w"
  shows "consistent (step e w)"
proof (cases e)
  case (Request url inp opts env)
  then show ?thesis using assms by (simp add: request_def consistent_private_request)
next
  case (Cancel i)
  then show ?thesis using assms by (simp add: consistent_cancel)
next
  case CancelAll
  then show ?thesis using assms by (simp add: cancelAll_def consistent_cancel_each)
next
  case Clear
  then show ?thesis using assms by (simp add: clear_def consistent_def split: option.splits)
next
  case (SetOptions mo)
  then show ?thesis using assms
    by (simp add: setOptions_def consistent_def Let_def split: option.splits)
next
  case GetAbortController
  then show ?thesis using assms by (simp add: consistent_getAbortController)
next
  case (AddAbortListener m sig)
  then show ?thesis using assms
    by (simp add: addAbortListener_def consistent_def split: option.splits)
next
  case (ExternalAbort c)
  have "consistent (snd (abort c w))"
  proof (rule consistent_frame [OF assms])
    show "case abortController (snd (abort c w)) of None \<Rightarrow> True
          | Some ca \<Rightarrow> ca < next_controller (snd (abort c w))"
      using assms by (simp add: abort_fields consistent_def split: option.splits)
  qed (simp_all add: abort_fields)
  then show ?thesis using ExternalAbort by simp
next
  case (Settles r res)
  then show ?thesis using assms by (simp add: consistent_onFulfilled)
next
  case (Fails r err)
  then show ?thesis using assms by (simp add: consistent_onError)
next
  case (TimerFires r)
  then show ?thesis using assms by (simp add: consistent_onTimeout)
qed

lemma evolves_step: "evolves w (step e w)"
proof (cases e)
  case (Request url inp opts env)
  then show ?thesis by (simp add: request_def evolves_private_request)
next
  case (Cancel i)
  then show ?thesis by (simp add: evolves_cancel)
next
  case CancelAll
  then show ?thesis by (simp add: cancelAll_def evolves_cancel_each)
next
  case Clear
  then show ?thesis by (simp add: clear_def evolves_def detached_def)
next
  case (SetOptions mo)
  then show ?thesis
    by (simp add: setOptions_def evolves_def detached_def Let_def split: option.splits)
next
  case GetAbortController
  then show ?thesis by (simp add: evolves_getAbortController)
next
  case (AddAbortListener m sig)
  then show ?thesis
    by (simp add: addAbortListener_def evolves_def detached_def split: option.splits)
next
  case (ExternalAbort c)
  have "evolves w (snd (abort c w))"
    by (rule evolves_frame) (simp_all add: abort_fields)
  then show ?thesis using ExternalAbort by simp
next
  case (Settles r res)
  then show ?thesis by (simp add: evolves_onFulfilled evolves_refl)
next
  case (Fails r err)
  then show ?thesis by (simp add: evolves_onError evolves_refl)
next
  case (TimerFires r)
  then show ?thesis by (simp add: evolves_onTimeout evolves_refl)
qed

lemma consistent_run: "consistent w \<Longrightarrow> consistent (run es w)"
  by (induction es arbitrary: w) (simp_all add: consistent_step)

lemma evolves_run: "evolves w (run es w)"
proof (induction es arbitrary: w)
  case Nil
  then show ?case by (simp add: evolves_refl)
next
  case (Cons e es)
  have "evolves w (step e w)" by (rule evolves_step)
  moreover have "evolves (step e w) (run es (step e w))" by (rule Cons.IH)
  ultimately show ?case by (simp add: evolves_trans [of w "step e w"])
qed

lemma consistent_constructor: "consistent (constructor mo ctls)"
  by (simp add: consistent_def constructor_def)

subsection \<open>A superseded entry\<close>

lemmas cancel_eval_defs =
  try_catch_def abort_def mark_cancelled_def map_delete_def rejectWrapper_def settle_def
  invoke_cancelToken_def Let_def

lemma superseded_fields:
  "activeRequests superseded = [(''request_h/api/a'', 1)]"
  "info_requestId (heap superseded 0) = ''request_h/api/a''"
  "isCancelled (heap superseded 0)"
  "wrapperPromise (heap superseded 0) = Pending"
  "next_info superseded = 2"
  by (simp_all add: superseded_def eval_defs cancel_eval_defs)

lemma attach_fields:
  "r' \<noteq> r \<Longrightarrow> heap (attach r p w) r' = heap w r'"
  "isCancelled (heap (attach r p w) r') = isCancelled (heap w r')"
  "promise (heap (attach r p w) r') = promise (heap w r')"
  "info_abortController (heap (attach r p w) r') = info_abortController (heap w r')"
  "\<exists>t. trace (attach r p w) = trace w @ t"
  "controllers (attach r p w) = controllers w"
  "next_info (attach r p w) = next_info w"
  by (auto simp add: attach_def onError_def rejectWrapper_def settle_def emit_def map_delete_def
      Let_def split: underlying.splits then_result.splits)

lemma attach_idle: "then_attached p \<or> (\<exists>obj. p = Plain obj) \<Longrightarrow> attach r p w = w"
  by (cases p rule: then_attached.cases) (auto simp add: attach_def)

lemma cancel_present_trace:
  assumes "map_of (activeRequests w) i = Some r"
    and "has_signal (controllers w (info_abortController (heap w r)))"
  shows "\<exists>t. trace (snd (cancel i w)) = trace w
          @ (if aborted (controllers w (info_abortController (heap w r))) then []
             else AbortCalled (info_abortController (heap w r)) # t)
          @ token_calls r (cancelToken (heap w r))
          @ (if verbose w then [RejectCalled r (cancel_message i)] else [])"
proof -
  from cancel_present [OF assms] obtain t where c: "cancel i w =
    (Returned True,
     w\<lparr>activeRequests := AList.delete i (activeRequests w),
       heap := (heap w)(r := cancelled_info (verbose w) i (heap w r)),
       controllers := (if aborted (controllers w (info_abortController (heap w r)))
                       then controllers w
                       else (controllers w)(info_abortController (heap w r) :=
                              abort_outcome (controllers w (info_abortController (heap w r))))),
       trace := trace w
          @ (if aborted (controllers w (info_abortController (heap w r))) then []
             else AbortCalled (info_abortController (heap w r)) # t)
          @ token_calls r (cancelToken (heap w r))
          @ (if verbose w then [RejectCalled r (cancel_message i)] else [])\<rparr>)" by blast
  show ?thesis by (rule exI [of _ t]) (simp add: c)
qed

lemma private_request_stages:
  assumes "private_request i inp opts w = (Returned r2, w')"
  obtains p wb where
    "obtain_underlying inp opts (fst (choose_controller opts w)) (snd (choose_controller opts w))
       = (Returned p, wb)"
    "r2 = next_info (after_cancel i opts wb)"
    "w' = attach r2 p (snd (register i p (fst (choose_controller opts w)) opts (after_cancel i opts wb)))"
    "\<exists>found. cancel_outcome i opts wb = Returned found"
proof -
  obtain res wb where o: "obtain_underlying inp opts (fst (choose_controller opts w))
      (snd (choose_controller opts w)) = (res, wb)"
    by (cases "obtain_underlying inp opts (fst (choose_controller opts w)) (snd (choose_controller opts w))")
  show ?thesis
  proof (cases res)
    case (Raised e)
    then show ?thesis using assms o by (simp add: private_request_unfold)
  next
    case (Returned p)
    show ?thesis
    proof (cases "cancel_outcome i opts wb")
      case (Raised e)
      then show ?thesis using assms o Returned by (simp add: private_request_unfold)
    next
      case found: (Returned found)
      show ?thesis
        using assms o Returned found
        by (intro that [of p wb]) (auto simp add: private_request_unfold)
    qed
  qed
qed

lemma stage_before_cancel:
  assumes "obtain_underlying inp opts (fst (choose_controller opts w)) (snd (choose_controller opts w))
       = (res, wb)"
  shows "activeRequests wb = activeRequests w" "heap wb = heap w" "next_info wb = next_info w"
    "verbose wb = verbose w" "consistent w \<Longrightarrow> consistent wb" "evolves w wb"
proof -
  let ?ac = "fst (choose_controller opts w)"
  let ?wa = "snd (choose_controller opts w)"
  have wb: "wb = snd (obtain_underlying inp opts ?ac ?wa)" using assms by simp
  show "activeRequests wb = activeRequests w" "heap wb = heap w" "next_info wb = next_info w"
    "verbose wb = verbose w"
    by (simp_all add: wb obtain_underlying_fields(1-8) choose_controller_fields)
  show "consistent w \<Longrightarrow> consistent wb"
    unfolding wb by (intro consistent_obtain_underlying consistent_choose_controller)
  have "evolves w ?wa" by (rule evolves_choose_controller)
  moreover have "evolves ?wa wb" unfolding wb by (rule evolves_obtain_underlying)
  ultimately show "evolves w wb" by (rule evolves_trans)
qed

lemma detached_forever:
  assumes "detached r w"
  shows "detached r (run es w)" "heap (run es w) r = heap w r"
  using assms evolves_run [of w es] by (simp_all add: evolves_def)

lemma first_pending_fields:
  "map_of (activeRequests first_pending) ''request_h/api/a'' = Some 0"
  "fst (private_request ''request_h/api/a'' pending_call default_options first_pending) = Returned 1"
  by (simp_all add: first_pending_def eval_defs cancel_eval_defs)

subsection \<open>The controller of a request\<close>

lemma cancel_trace_extends: "\<exists>t. trace (snd (cancel i w)) = trace w @ t"
proof (cases "map_of (activeRequests w) i")
  case None
  then show ?thesis by (simp add: cancel_absent)
next
  case (Some r)
  show ?thesis
  proof (cases "has_signal (controllers w (info_abortController (heap w r)))")
    case False
    show ?thesis by (simp add: cancel_signalless [OF Some False] mark_cancelled_def)
  next
    case True
    from cancel_present_trace [OF Some True] show ?thesis by (metis append.assoc)
  qed
qed

lemma private_request_trace:
  "\<exists>t. trace (snd (private_request i inp opts w))
        = trace w @ supplier_call inp opts (fst (choose_controller opts w)) @ t"
proof -
  let ?ac = "fst (choose_controller opts w)"
  let ?wa = "snd (choose_controller opts w)"
  obtain res wb where o: "obtain_underlying inp opts ?ac ?wa = (res, wb)"
    by (cases "obtain_underlying inp opts ?ac ?wa")
  have tb: "trace wb = trace w @ supplier_call inp opts ?ac"
    using obtain_underlying_fields(9) [of inp opts ?ac ?wa] o
    by (simp add: choose_controller_fields supplier_call_def)
  show ?thesis
  proof (cases res)
    case (Raised e)
    then have "snd (private_request i inp opts w) = wb"
      using o by (simp add: private_request_unfold)
    then show ?thesis using tb by simp
  next
    case (Returned p)
    let ?wc = "after_cancel i opts wb"
    let ?wd = "snd (register i p ?ac opts ?wc)"
    have w': "snd (private_request i inp opts w) = ?wc
        \<or> snd (private_request i inp opts w) = attach (next_info ?wc) p ?wd"
      using private_request_state [of inp opts w p wb i] o Returned by simp
    obtain t1 where t1: "trace ?wc = trace wb @ t1"
      using cancel_trace_extends [of i wb] by (cases "noCancel opts") (auto simp add: after_cancel_def)
    obtain t2 where t2: "trace (attach (next_info ?wc) p ?wd) = trace ?wd @ t2"
      using attach_fields(5) by blast
    from w' show ?thesis
    proof
      assume "snd (private_request i inp opts w) = ?wc"
      then have "trace (snd (private_request i inp opts w))
          = trace w @ supplier_call inp opts ?ac @ t1"
        by (simp add: t1 tb)
      then show ?thesis by blast
    next
      assume "snd (private_request i inp opts w) = attach (next_info ?wc) p ?wd"
      then have "trace (snd (private_request i inp opts w))
          = trace w @ supplier_call inp opts ?ac @ (t1 @ t2)"
        by (simp add: t2 register_fields(7) t1 tb)
      then show ?thesis by blast
    qed
  qed
qed

lemma private_request_entry:
  assumes "private_request i inp opts w = (Returned r, w')"
  shows "info_abortController (heap w' r) = fst (choose_controller opts w)"
proof -
  from private_request_stages [OF assms] obtain p wb where
    r: "r = next_info (after_cancel i opts wb)"
    and w': "w' = attach r p (snd (register i p (fst (choose_controller opts w)) opts (after_cancel i opts wb)))"
    by blast
  show ?thesis
    by (simp add: w' attach_fields(4) register_fields(3) r)
qed

lemma signal_taken_fields:
  "getAbortController (constructor \<lparr>mo_verbose = None\<rparr> plain_controllers) = (Own 0, signal_taken)"
  "next_controller signal_taken = 1"
  "abortController signal_taken = Some 0"
  "fst (private_request ''request_/api/a'' (UrlString ''/api/a'') default_options signal_taken) = Returned 0"
  by (simp_all add: signal_taken_def getSignal_def eval_defs cancel_eval_defs)

subsection \<open>Suppressed identities\<close>

lemma digit_char: "k < 10 \<Longrightarrow> of_char (char_of (48 + k :: nat)) = (48 + k :: nat)"
  by (simp add: of_char_of)

lemma digits_value_string_of_nat: "digits_value (string_of_nat n) = n"
proof (induction n rule: string_of_nat.induct)
  case (1 n)
  show ?case
  proof (cases "n < 10")
    case True
    then show ?thesis
      by (subst string_of_nat.simps) (simp add: digits_value_def digit_char)
  next
    case False
    have m: "n mod 10 < 10" by simp
    have "digits_value (string_of_nat n)
        = 10 * digits_value (string_of_nat (n div 10)) + (of_char (char_of (48 + n mod 10)) - 48)"
      using False by (subst string_of_nat.simps) (simp add: digits_value_def)
    also have "\<dots> = 10 * (n div 10) + n mod 10"
    proof -
      have ih: "digits_value (string_of_nat (n div 10)) = n div 10" by (rule 1 [OF False])
      have dc: "(of_char (char_of (48 + n mod 10)) :: nat) - 48 = n mod 10"
        by (simp only: digit_char [OF m] diff_add_inverse)
      show ?thesis by (simp only: ih dc)
    qed
    finally show ?thesis by simp
  qed
qed

lemma string_of_nat_inj:
  assumes "string_of_nat m = string_of_nat n"
  shows "m = n"
proof -
  have "m = digits_value (string_of_nat m)" by (simp only: digits_value_string_of_nat)
  also have "\<dots> = digits_value (string_of_nat n)" by (simp only: assms)
  also have "\<dots> = n" by (rule digits_value_string_of_nat)
  finally show ?thesis .
qed

lemma underscore_not_digit: "CHR ''_'' \<notin> set (string_of_nat n)"
proof (induction n rule: string_of_nat.induct)
  case (1 n)
  have d: "\<And>k. k < 10 \<Longrightarrow> char_of (48 + k :: nat) \<noteq> CHR ''_''"
  proof
    fix k :: nat assume k: "k < 10" and "char_of (48 + k) = CHR ''_''"
    then have "(of_char (char_of (48 + k)) :: nat) = of_char CHR ''_''" by simp
    then show False using digit_char [OF k] k by simp
  qed
  show ?case
  proof (cases "n < 10")
    case True
    then show ?thesis using d [of n] by (subst string_of_nat.simps) auto
  next
    case False
    have "n mod 10 < 10" by simp
    then show ?thesis
      using False 1 d [of "n mod 10"] by (subst string_of_nat.simps) auto
  qed
qed

lemma split_at_first:
  assumes "xs @ c # ys = xs' @ c # ys'" "c \<notin> set xs" "c \<notin> set xs'"
  shows "xs = xs' \<and> ys = ys'"
  using assms
proof (induction xs arbitrary: xs')
  case Nil
  then show ?case by (cases xs') auto
next
  case (Cons x xs)
  then show ?case by (cases xs') auto
qed

lemma suppressed_identity_eq:
  "generateRequestId url k True env = generateRequestId url' k' True env'
     \<longleftrightarrow> now env = now env' \<and> rnd env = rnd env'"
proof
  assume "generateRequestId url k True env = generateRequestId url' k' True env'"
  then have "string_of_nat (now env) @ CHR ''_'' # rnd env
      = string_of_nat (now env') @ CHR ''_'' # rnd env'"
    by (simp add: generateRequestId_def)
  from split_at_first [OF this underscore_not_digit underscore_not_digit]
  show "now env = now env' \<and> rnd env = rnd env'"
    using string_of_nat_inj by blast
next
  assume "now env = now env' \<and> rnd env = rnd env'"
  then show "generateRequestId url k True env = generateRequestId url' k' True env'"
    by (simp add: generateRequestId_def)
qed

subsection \<open>Two entries awaiting their completions\<close>

lemma catch_then_attached: "catch_attached p \<Longrightarrow> then_attached p"
  by (cases p rule: catch_attached.cases) auto

lemma complete_awaiting:
  assumes "awaiting r w"
  shows "wrapperPromise (heap (step (completion_event r c) w) r) = completion_outcome c"
  using assms
  by (cases c)
    (auto simp add: awaiting_def catch_then_attached onFulfilled_def onError_def resolveWrapper_def
      rejectWrapper_def settle_def emit_def map_delete_def Let_def)

lemma complete_keeps:
  assumes "r' \<noteq> r"
  shows "heap (step (completion_event r c) w) r' = heap w r'"
    "next_info (step (completion_event r c) w) = next_info w"
  using assms
  by (cases c;
      auto simp add: onFulfilled_def onError_def resolveWrapper_def
        rejectWrapper_def settle_def emit_def map_delete_def Let_def)+

lemma complete_table:
  "activeRequests (step (completion_event r c) w) = activeRequests w
   \<or> activeRequests (step (completion_event r c) w)
       = AList.delete (info_requestId (heap w r)) (activeRequests w)"
  by (cases c)
    (auto simp add: onFulfilled_def onError_def resolveWrapper_def
      rejectWrapper_def settle_def emit_def map_delete_def Let_def)

lemma complete_other:
  assumes "awaiting r w" "awaiting r' w" "r' \<noteq> r"
  shows "awaiting r' (step (completion_event r c) w)"
proof -
  have ids: "info_requestId (heap w r') \<noteq> info_requestId (heap w r)"
    using assms by (auto simp add: awaiting_def)
  have "map_of (activeRequests (step (completion_event r c) w)) (info_requestId (heap w r'))
      = Some r'"
    using complete_table [of r c w] assms(2) ids by (auto simp add: awaiting_def delete_conv')
  then show ?thesis
    using assms(2) assms(3) by (simp add: awaiting_def complete_keeps)
qed

lemma both_complete:
  assumes "awaiting r w" "awaiting r' w" "r' \<noteq> r"
  shows "wrapperPromise (heap (run [completion_event r c, completion_event r' c'] w) r)
           = completion_outcome c"
    "wrapperPromise (heap (run [completion_event r c, completion_event r' c'] w) r')
           = completion_outcome c'"
proof -
  have a: "awaiting r' (step (completion_event r c) w)"
    by (rule complete_other [OF assms])
  have ne: "r \<noteq> r'" using assms(3) by simp
  show "wrapperPromise (heap (run [completion_event r c, completion_event r' c'] w) r)
           = completion_outcome c"
    using complete_awaiting [OF assms(1), of c] by (simp add: complete_keeps(1) [OF ne])
  show "wrapperPromise (heap (run [completion_event r c, completion_event r' c'] w) r')
           = completion_outcome c'"
    using complete_awaiting [OF a, of c'] by simp
qed

lemma suppressed_request_result:
  assumes nc: "noCancel opts" and ret: "private_request i inp opts w = (Returned r, w')"
    and pr: "catch_attached (promise (heap w' r))"
  shows "r = next_info w" "next_info w' = Suc (next_info w)"
    "activeRequests w' = AList.update i r (activeRequests w)"
    "\<And>r0. r0 \<noteq> r \<Longrightarrow> heap w' r0 = heap w r0"
    "info_requestId (heap w' r) = i" "\<not> isCancelled (heap w' r)"
    "wrapperPromise (heap w' r) = Pending"
proof -
  let ?ac = "fst (choose_controller opts w)"
  from private_request_stages [OF ret] obtain p wb where
    o: "obtain_underlying inp opts ?ac (snd (choose_controller opts w)) = (Returned p, wb)"
    and r: "r = next_info (after_cancel i opts wb)"
    and w': "w' = attach r p (snd (register i p ?ac opts (after_cancel i opts wb)))"
    by blast
  note b = stage_before_cancel [OF o]
  have ac: "after_cancel i opts wb = wb" using nc by (simp add: after_cancel_def)
  let ?wd = "snd (register i p ?ac opts wb)"
  have rn: "r = next_info wb" using r ac by simp
  have "promise (heap w' r) = p"
    by (simp add: w' ac attach_fields(3) register_fields(3) rn)
  then have "then_attached p" using pr catch_then_attached by simp
  then have eq: "w' = ?wd" using w' ac by (simp add: attach_idle)
  show "r = next_info w" using rn b(3) by simp
  show "next_info w' = Suc (next_info w)" by (simp add: eq register_fields(4) b(3))
  show "activeRequests w' = AList.update i r (activeRequests w)"
    by (simp add: eq register_fields(2) b(1) rn)
  show "\<And>r0. r0 \<noteq> r \<Longrightarrow> heap w' r0 = heap w r0"
    by (simp add: eq register_fields(3) b(2) rn)
  show "info_requestId (heap w' r) = i" "\<not> isCancelled (heap w' r)"
    "wrapperPromise (heap w' r) = Pending"
    by (simp_all add: eq register_fields(3) rn)
qed

subsection \<open>Two suppressed requests, evaluated\<close>

lemma string_of_nat_7: "string_of_nat 7 = ''7''"
  by code_simp

lemma string_of_nat_8: "string_of_nat 8 = ''8''"
  by code_simp

lemma same_draw_twice_fields:
  "generateRequestId (Some ''/api/lazy'') (requestKey suppressed_options)
      (noCancel suppressed_options) \<lparr>now = 7, rnd = ''k3x9''\<rparr> = ''request_7_k3x9''"
  "activeRequests same_draw_twice = [(''request_7_k3x9'', 1)]"
  "next_info same_draw_twice = 2"
  "info_requestId (heap same_draw_twice 0) = ''request_7_k3x9''"
  "\<not> isCancelled (heap same_draw_twice 0)"
  "wrapperPromise (heap same_draw_twice 0) = Pending"
  by (simp_all add: same_draw_twice_def suppressed_options_def eval_defs string_of_nat_7)

lemma both_suppressed_fields:
  "fst (request (Some ''/api/lazy'') pending_call suppressed_options \<lparr>now = 7, rnd = ''k3x9''\<rparr>
            (constructor \<lparr>mo_verbose = None\<rparr> plain_controllers)) = Returned 0"
  "fst (request (Some ''/api/lazy'') pending_call suppressed_options \<lparr>now = 8, rnd = ''k3x9''\<rparr>
            first_suppressed) = Returned 1"
  "promise (heap both_suppressed 0) = Thenable (ThenReturns True)"
  "promise (heap both_suppressed 1) = Thenable (ThenReturns True)"
  "activeRequests both_suppressed = [(''request_7_k3x9'', 0), (''request_8_k3x9'', 1)]"
  by (simp_all add: both_suppressed_def first_suppressed_def suppressed_options_def eval_defs
      string_of_nat_7 string_of_nat_8)

subsection \<open>Suppressed requests with distinct draws\<close>

text \<open>
  Two suppressed requests whose clock value or random suffix differ, and whose underlying
  calls are promises, do not meet: their identities differ, both entries are in the table,
  neither submit cancels an entry, and each wrapper promise settles with the outcome of its
  own call, whichever call completes first.
\<close>

lemma distinct_draws_independent:
  assumes ncA: "noCancel optsA" and ncB: "noCancel optsB"
    and draw: "now envA \<noteq> now envB \<or> rnd envA \<noteq> rnd envB"
    and retA: "request urlA inpA optsA envA w = (Returned rA, wA)"
    and retB: "request urlB inpB optsB envB wA = (Returned rB, wB)"
    and prA: "catch_attached (promise (heap wB rA))"
    and prB: "catch_attached (promise (heap wB rB))"
  shows "generateRequestId urlA (requestKey optsA) (noCancel optsA) envA
           \<noteq> generateRequestId urlB (requestKey optsB) (noCancel optsB) envB
       \<and> rA \<noteq> rB
       \<and> map_of (activeRequests wB) (generateRequestId urlA (requestKey optsA) (noCancel optsA) envA) = Some rA
       \<and> map_of (activeRequests wB) (generateRequestId urlB (requestKey optsB) (noCancel optsB) envB) = Some rB
       \<and> \<not> isCancelled (heap wB rA) \<and> \<not> isCancelled (heap wB rB)
       \<and> (\<forall>r. isCancelled (heap wB r) \<longrightarrow> isCancelled (heap w r))
       \<and> (\<forall>cA cB.
             wrapperPromise (heap (run [completion_event rA cA, completion_event rB cB] wB) rA)
               = completion_outcome cA
           \<and> wrapperPromise (heap (run [completion_event rA cA, completion_event rB cB] wB) rB)
               = completion_outcome cB
           \<and> wrapperPromise (heap (run [completion_event rB cB, completion_event rA cA] wB) rA)
               = completion_outcome cA
           \<and> wrapperPromise (heap (run [completion_event rB cB, completion_event rA cA] wB) rB)
               = completion_outcome cB)"
proof -
  let ?iA = "generateRequestId urlA (requestKey optsA) (noCancel optsA) envA"
  let ?iB = "generateRequestId urlB (requestKey optsB) (noCancel optsB) envB"
  have ids: "?iA \<noteq> ?iB"
    using draw ncA ncB by (simp add: suppressed_identity_eq)
  have pB: "private_request ?iB inpB optsB wA = (Returned rB, wB)"
    using retB by (simp add: request_def)
  note fB = suppressed_request_result [OF ncB pB prB]
  have pA: "private_request ?iA inpA optsA w = (Returned rA, wA)"
    using retA by (simp add: request_def)
  have lt: "rA < next_info wA"
  proof -
    from private_request_stages [OF pA] obtain p wb where
      r: "rA = next_info (after_cancel ?iA optsA wb)"
      and w': "wA = attach rA p (snd (register ?iA p (fst (choose_controller optsA w)) optsA
                (after_cancel ?iA optsA wb)))"
      by blast
    show ?thesis by (simp add: w' attach_fields(7) register_fields(4) r)
  qed
  have ne: "rA \<noteq> rB" using lt fB(1) by simp
  have "promise (heap wA rA) = promise (heap wB rA)" using fB(4) [OF ne] by simp
  then have prA': "catch_attached (promise (heap wA rA))" using prA by simp
  note fA = suppressed_request_result [OF ncA pA prA']
  have hA: "heap wB rA = heap wA rA" using fB(4) [OF ne] .
  have tA: "map_of (activeRequests wB) ?iA = Some rA"
    using ids by (simp add: fB(3) fA(3) update_conv')
  have tB: "map_of (activeRequests wB) ?iB = Some rB"
    by (simp add: fB(3) update_conv')
  have cA: "\<not> isCancelled (heap wB rA)" using fA(6) by (simp add: hA)
  have cB: "\<not> isCancelled (heap wB rB)" using fB(6) .
  have fr: "\<forall>r. isCancelled (heap wB r) \<longrightarrow> isCancelled (heap w r)"
  proof (intro allI impI)
    fix r assume c: "isCancelled (heap wB r)"
    then have "r \<noteq> rB" "r \<noteq> rA" using cA cB by auto
    then show "isCancelled (heap w r)" using c fB(4) [of r] fA(4) [of r] by simp
  qed
  have aA: "awaiting rA wB"
    using lt tA cA prA fA(5) fA(7) by (simp add: awaiting_def hA fB(2))
  have aB: "awaiting rB wB"
    using tB cB prB fB(5) fB(7) by (simp add: awaiting_def fB(1) fB(2))
  have ne': "rB \<noteq> rA" using ne by simp
  have fin: "\<forall>cA cB.
             wrapperPromise (heap (run [completion_event rA cA, completion_event rB cB] wB) rA)
               = completion_outcome cA
           \<and> wrapperPromise (heap (run [completion_event rA cA, completion_event rB cB] wB) rB)
               = completion_outcome cB
           \<and> wrapperPromise (heap (run [completion_event rB cB, completion_event rA cA] wB) rA)
               = completion_outcome cA
           \<and> wrapperPromise (heap (run [completion_event rB cB, completion_event rA cA] wB) rB)
               = completion_outcome cB"
    using both_complete [OF aA aB ne'] both_complete [OF aB aA ne] by blast
  show ?thesis using ids ne tA tB cA cB fr fin by blast
qed

lemma distinct_draws_example:
  "noCancel suppressed_options
   \<and> now \<lparr>now = 7, rnd = ''k3x9''\<rparr> \<noteq> now \<lparr>now = 8, rnd = ''k3x9''\<rparr>
   \<and> request (Some ''/api/lazy'') pending_call suppressed_options \<lparr>now = 7, rnd = ''k3x9''\<rparr>
        (constructor \<lparr>mo_verbose = None\<rparr> plain_controllers) = (Returned 0, first_suppressed)
   \<and> request (Some ''/api/lazy'') pending_call suppressed_options \<lparr>now = 8, rnd = ''k3x9''\<rparr>
        first_suppressed = (Returned 1, both_suppressed)
   \<and> catch_attached (promise (heap both_suppressed 0))
   \<and> catch_attached (promise (heap both_suppressed 1))
   \<and> wrapperPromise (heap (run [Settles 0 ''first'', Fails 1 ''second''] both_suppressed) 0)
        = Fulfilled ''first''
   \<and> wrapperPromise (heap (run [Settles 0 ''first'', Fails 1 ''second''] both_suppressed) 1)
        = Rejected (Original ''second'')
   \<and> wrapperPromise (heap (run [Fails 1 ''second'', Settles 0 ''first''] both_suppressed) 0)
        = Fulfilled ''first''"
proof -
  let ?eA = "\<lparr>now = 7, rnd = ''k3x9''\<rparr>"
  let ?eB = "\<lparr>now = 8, rnd = ''k3x9''\<rparr>"
  let ?w0 = "constructor \<lparr>mo_verbose = None\<rparr> plain_controllers"
  have n: "noCancel suppressed_options" by (simp add: suppressed_options_def)
  have d: "now ?eA \<noteq> now ?eB \<or> rnd ?eA \<noteq> rnd ?eB" by simp
  have a: "request (Some ''/api/lazy'') pending_call suppressed_options ?eA ?w0
      = (Returned 0, first_suppressed)"
    using both_suppressed_fields(1) by (simp add: prod_eq_iff first_suppressed_def)
  have b: "request (Some ''/api/lazy'') pending_call suppressed_options ?eB first_suppressed
      = (Returned 1, both_suppressed)"
    using both_suppressed_fields(2) by (simp add: prod_eq_iff both_suppressed_def)
  have pa: "catch_attached (promise (heap both_suppressed 0))"
    using both_suppressed_fields(3) by simp
  have pb: "catch_attached (promise (heap both_suppressed 1))"
    using both_suppressed_fields(4) by simp
  from distinct_draws_independent [OF n n d a b pa pb]
  have "\<forall>cA cB.
     wrapperPromise (heap (run [completion_event 0 cA, completion_event 1 cB] both_suppressed) 0)
       = completion_outcome cA
   \<and> wrapperPromise (heap (run [completion_event 0 cA, completion_event 1 cB] both_suppressed) 1)
       = completion_outcome cB
   \<and> wrapperPromise (heap (run [completion_event 1 cB, completion_event 0 cA] both_suppressed) 0)
       = completion_outcome cA
   \<and> wrapperPromise (heap (run [completion_event 1 cB, completion_event 0 cA] both_suppressed) 1)
       = completion_outcome cB"
    by blast
  from this [rule_format, of "Succeeds ''first''" "Breaks ''second''"]
  have "wrapperPromise (heap (run [Settles 0 ''first'', Fails 1 ''second''] both_suppressed) 0)
        = Fulfilled ''first''"
    "wrapperPromise (heap (run [Settles 0 ''first'', Fails 1 ''second''] both_suppressed) 1)
        = Rejected (Original ''second'')"
    "wrapperPromise (heap (run [Fails 1 ''second'', Settles 0 ''first''] both_suppressed) 0)
        = Fulfilled ''first''"
    by (simp_all del: run.simps step.simps)
  moreover have "now ?eA \<noteq> now ?eB" by simp
  ultimately show ?thesis using n a b pa pb by blast
qed

section \<open>The claims\<close>

text \<open>
  Claim C1. Let the manager be between two turns of the event loop, with entry \<open>r1\<close>
  tracked under identity \<open>i\<close>, and let a second request with the same identity and
  without \<open>noCancel\<close> be submitted and return entry \<open>r2\<close>. Then \<open>#_request\<close> runs
  \<open>cancel(i)\<close> in a state whose table and entries are still those of the start: it returns
  true, marks \<open>r1\<close> cancelled, calls the abort of its controller (unless that is aborted
  already) and its cancel token, and removes \<open>r1\<close> from the table while \<open>r2\<close> is not yet
  allocated; the new entry is registered after that. The new entry is a different object
  and is not cancelled. The first entry stays out of the table for ever, and in every
  later run its wrapper promise is what the cancellation left (pending, or rejected with
  the cancellation error when \<open>verbose\<close> is on): it is never fulfilled.
\<close>

theorem supersession:
  assumes cw: "consistent w" and cur: "map_of (activeRequests w) i = Some r1"
    and nc: "\<not> noCancel opts" and ret: "private_request i inp opts w = (Returned r2, w')"
  shows "(\<exists>wb p ac.
            activeRequests wb = activeRequests w \<and> heap wb = heap w \<and> next_info wb = next_info w
          \<and> fst (cancel i wb) = Returned True
          \<and> isCancelled (heap (snd (cancel i wb)) r1)
          \<and> map_of (activeRequests (snd (cancel i wb))) i = None
          \<and> next_info (snd (cancel i wb)) = r2
          \<and> w' = attach r2 p (snd (register i p ac opts (snd (cancel i wb))))
          \<and> (aborted (controllers wb (info_abortController (heap w r1)))
               \<or> AbortCalled (info_abortController (heap w r1)) \<in> set (trace w'))
          \<and> set (token_calls r1 (cancelToken (heap w r1))) \<subseteq> set (trace w'))
       \<and> r2 \<noteq> r1
       \<and> \<not> isCancelled (heap w' r2)
       \<and> isCancelled (heap w' r1)
       \<and> detached r1 w'
       \<and> (\<forall>es. wrapperPromise (heap (run es w') r1)
                = (if verbose w then Rejected (cancel_message i) else Pending))
       \<and> (\<forall>es v. wrapperPromise (heap (run es w') r1) \<noteq> Fulfilled v)"
proof -
  let ?ac = "fst (choose_controller opts w)"
  from private_request_stages [OF ret] obtain p wb where
    o: "obtain_underlying inp opts ?ac (snd (choose_controller opts w)) = (Returned p, wb)"
    and r2: "r2 = next_info (after_cancel i opts wb)"
    and w': "w' = attach r2 p (snd (register i p ?ac opts (after_cancel i opts wb)))"
    and co: "\<exists>found. cancel_outcome i opts wb = Returned found"
    by blast
  note b = stage_before_cancel [OF o]
  let ?wc = "snd (cancel i wb)"
  let ?wd = "snd (register i p ?ac opts ?wc)"
  have ac: "after_cancel i opts wb = ?wc" using nc by (simp add: after_cancel_def)
  have cb: "consistent wb" using b(5) cw .
  have curb: "map_of (activeRequests wb) i = Some r1" using cur by (simp add: b(1))
  have sg: "has_signal (controllers wb (info_abortController (heap wb r1)))"
  proof (rule ccontr)
    assume "\<not> has_signal (controllers wb (info_abortController (heap wb r1)))"
    from cancel_signalless [OF curb this] co nc show False
      by (simp add: cancel_outcome_def)
  qed
  note f = cancel_present_fields [OF curb sg]
  have mem: "(i, r1) \<in> set (activeRequests w)" using cur by (rule map_of_SomeD)
  note e = consistent_entry [OF cw mem]
  have r2n: "r2 = next_info w" using r2 by (simp add: ac f(4) b(3))
  have ne: "r2 \<noteq> r1" using e(1) r2n by simp
  have w'eq: "w' = attach r2 p ?wd" using w' by (simp add: ac)
  have hc1: "heap ?wc r1 = cancelled_info (verbose w) i (heap w r1)"
    by (simp add: f(3) b(2) b(4))
  have c1: "isCancelled (heap ?wc r1)" by (simp add: hc1 cancelled_info_def)
  have gone: "map_of (activeRequests ?wc) i = None" by (simp add: f(2) delete_conv')
  have detc: "detached r1 ?wc"
    using delete_drops_ref [OF cb curb] e(1) by (simp add: detached_def f(2) f(4) b(3))
  have "evolves ?wc ?wd" by (rule evolves_register)
  moreover have "evolves ?wd w'" unfolding w'eq by (rule evolves_attach)
  ultimately have ev: "evolves ?wc w'" by (rule evolves_trans)
  have det: "detached r1 w'" and h1: "heap w' r1 = heap ?wc r1"
    using ev detc by (simp_all add: evolves_def)
  have new: "\<not> isCancelled (heap w' r2)"
    by (simp add: w'eq attach_fields(2) register_fields(3) r2 ac)
  obtain t1 where t1: "trace w' = trace ?wd @ t1"
    unfolding w'eq using attach_fields(5) by blast
  from cancel_present_trace [OF curb sg] obtain t where
    tc: "trace ?wc = trace wb
          @ (if aborted (controllers wb (info_abortController (heap wb r1))) then []
             else AbortCalled (info_abortController (heap wb r1)) # t)
          @ token_calls r1 (cancelToken (heap wb r1))
          @ (if verbose wb then [RejectCalled r1 (cancel_message i)] else [])"
    by blast
  have tr: "trace w' = trace ?wc @ t1" by (simp add: t1 register_fields(7))
  have ab: "aborted (controllers wb (info_abortController (heap w r1)))
               \<or> AbortCalled (info_abortController (heap w r1)) \<in> set (trace w')"
    by (simp add: tr tc b(2))
  have tk: "set (token_calls r1 (cancelToken (heap w r1))) \<subseteq> set (trace w')"
    by (auto simp add: tr tc b(2))
  have stages: "\<exists>wb p ac.
            activeRequests wb = activeRequests w \<and> heap wb = heap w \<and> next_info wb = next_info w
          \<and> fst (cancel i wb) = Returned True
          \<and> isCancelled (heap (snd (cancel i wb)) r1)
          \<and> map_of (activeRequests (snd (cancel i wb))) i = None
          \<and> next_info (snd (cancel i wb)) = r2
          \<and> w' = attach r2 p (snd (register i p ac opts (snd (cancel i wb))))
          \<and> (aborted (controllers wb (info_abortController (heap w r1)))
               \<or> AbortCalled (info_abortController (heap w r1)) \<in> set (trace w'))
          \<and> set (token_calls r1 (cancelToken (heap w r1))) \<subseteq> set (trace w')"
  proof -
    have r2c: "next_info (snd (cancel i wb)) = r2" using r2 ac by simp
    show ?thesis
      by (rule exI [of _ wb], rule exI [of _ p], rule exI [of _ "fst (choose_controller opts w)"])
        (intro conjI b(1) b(2) b(3) f(1) c1 gone r2c w'eq ab tk)
  qed
  have wp: "wrapperPromise (heap w' r1) = (if verbose w then Rejected (cancel_message i) else Pending)"
    using e(3) by (simp add: h1 hc1 cancelled_info_def)
  have fut: "\<forall>es. wrapperPromise (heap (run es w') r1)
                = (if verbose w then Rejected (cancel_message i) else Pending)"
    using detached_forever(2) [OF det] wp by simp
  have never: "\<forall>es v. wrapperPromise (heap (run es w') r1) \<noteq> Fulfilled v"
    using fut by simp
  have c1': "isCancelled (heap w' r1)" using c1 h1 by simp
  show ?thesis using stages ne new c1' det fut never by blast
qed

theorem supersession_witness:
  "consistent first_pending
   \<and> map_of (activeRequests first_pending) ''request_h/api/a'' = Some 0
   \<and> \<not> noCancel default_options
   \<and> fst (private_request ''request_h/api/a'' pending_call default_options first_pending) = Returned 1
   \<and> isCancelled (heap (snd (private_request ''request_h/api/a'' pending_call default_options first_pending)) 0)
   \<and> \<not> isCancelled (heap (snd (private_request ''request_h/api/a'' pending_call default_options first_pending)) 1)
   \<and> (\<forall>es v. wrapperPromise
         (heap (run es (snd (private_request ''request_h/api/a'' pending_call default_options first_pending))) 0)
          \<noteq> Fulfilled v)"
proof -
  let ?w' = "snd (private_request ''request_h/api/a'' pending_call default_options first_pending)"
  have c: "consistent first_pending"
    unfolding first_pending_def by (rule consistent_run [OF consistent_constructor])
  have n: "\<not> noCancel default_options" by (simp add: default_options_def)
  have r: "private_request ''request_h/api/a'' pending_call default_options first_pending
      = (Returned 1, ?w')"
    using first_pending_fields(2) by (simp add: prod_eq_iff)
  from supersession [OF c first_pending_fields(1) n r]
  have "isCancelled (heap ?w' 0)" "\<not> isCancelled (heap ?w' 1)"
    "\<forall>es v. wrapperPromise (heap (run es ?w') 0) \<noteq> Fulfilled v"
    by blast+
  with c n first_pending_fields show ?thesis by blast
qed

text \<open>
  Claim C2, evaluated on the code. An entry created while \<open>verbose\<close> was true captures
  \<open>verbose = true\<close>, yet after \<open>setOptions({verbose: false})\<close> its cancellation leaves the
  wrapper promise pending; an entry created while \<open>verbose\<close> was false captures
  \<open>verbose = false\<close>, yet after \<open>setOptions({verbose: true})\<close> its cancellation rejects the
  wrapper promise. \<open>cancel\<close> reads \<open>this.verbose\<close>, not the flag stored in the entry.
\<close>

theorem cancel_reads_manager_verbose:
  "info_verbose (heap created_verbose_then_quiet 0)
   \<and> wrapperPromise (heap (snd (cancel ''request_/api/a'' created_verbose_then_quiet)) 0) = Pending
   \<and> \<not> info_verbose (heap created_quiet_then_verbose 0)
   \<and> wrapperPromise (heap (snd (cancel ''request_/api/a'' created_quiet_then_verbose)) 0)
       = Rejected (NewError ''Request request_/api/a was cancelled'')"
proof -
  note a = created_verbose_then_quiet_fields and b = created_quiet_then_verbose_fields
  have ca: "map_of (activeRequests created_verbose_then_quiet) ''request_/api/a'' = Some 0"
    using a by simp
  have cb: "map_of (activeRequests created_quiet_then_verbose) ''request_/api/a'' = Some 0"
    using b by simp
  have sa: "has_signal (controllers created_verbose_then_quiet
         (info_abortController (heap created_verbose_then_quiet 0)))"
    using a by blast
  have sb: "has_signal (controllers created_quiet_then_verbose
         (info_abortController (heap created_quiet_then_verbose 0)))"
    using b by blast
  show ?thesis
    using a b cancel_proxy [OF ca sa] cancel_proxy [OF cb sb]
    by (simp add: cancel_message_def)
qed

text \<open>
  Claim C3. In every run of a manager the resolver functions of an entry are called at
  most once. A completion that arrives for an entry that is not the table's occupant for
  its identity (it was superseded or removed) changes nothing at all: it neither settles
  that entry's wrapper promise nor removes or settles any other entry.
\<close>

theorem settle_once_and_only_current:
  "distinct (settled_refs (trace (run es (constructor mo ctls))))
   \<and> (map_of (activeRequests w) (info_requestId (heap w r)) \<noteq> Some r \<longrightarrow>
        step (Settles r res) w = w \<and> step (Fails r err) w = w \<and> step (TimerFires r) w = w)"
proof
  have "consistent (run es (constructor mo ctls))"
    by (rule consistent_run [OF consistent_constructor])
  then show "distinct (settled_refs (trace (run es (constructor mo ctls))))"
    by (simp add: consistent_def)
next
  show "map_of (activeRequests w) (info_requestId (heap w r)) \<noteq> Some r \<longrightarrow>
        step (Settles r res) w = w \<and> step (Fails r err) w = w \<and> step (TimerFires r) w = w"
    by (cases "promise (heap w r)") (simp_all add: onFulfilled_def onError_stale onTimeout_def)
qed

theorem settle_once_and_only_current_witness:
  "map_of (activeRequests superseded) (info_requestId (heap superseded 0)) \<noteq> Some 0
   \<and> step (Settles 0 ''late'') superseded = superseded
   \<and> step (Fails 0 ''late'') superseded = superseded
   \<and> step (TimerFires 0) superseded = superseded
   \<and> distinct (settled_refs (trace (run [Settles 0 ''late''] (constructor \<lparr>mo_verbose = None\<rparr> plain_controllers))))"
  using settle_once_and_only_current [of "[Settles 0 ''late'']" "\<lparr>mo_verbose = None\<rparr>"
      plain_controllers superseded 0 "''late''" "''late''"]
  by (simp add: superseded_fields)

text \<open>
  Claim C4. Two requests submitted with \<open>noCancel\<close> are to get different identities, not
  to cancel each other, and both wrapper promises are to settle with the outcome of their
  own call. The code builds the suppressed identity from \<open>Date.now()\<close> and the random
  suffix alone. Evaluated on two such requests, same URL and same \<open>requestKey\<close>, for which
  the clock value \<open>7\<close> and the suffix \<open>k3x9\<close> coincide: both get the identity
  \<open>request_7_k3x9\<close>, the second \<open>set\<close> replaces the first entry in the table (the first
  entry is not cancelled, it is no longer tracked), and the completion of the first call, a
  success or a failure, finds another occupant and leaves the first wrapper promise pending.
\<close>

theorem suppressed_requests_collide:
  "noCancel suppressed_options
   \<and> generateRequestId (Some ''/api/lazy'') (requestKey suppressed_options)
        (noCancel suppressed_options) \<lparr>now = 7, rnd = ''k3x9''\<rparr> = ''request_7_k3x9''
   \<and> info_requestId (heap same_draw_twice 0) = ''request_7_k3x9''
   \<and> activeRequests same_draw_twice = [(''request_7_k3x9'', 1)]
   \<and> \<not> isCancelled (heap same_draw_twice 0)
   \<and> wrapperPromise (heap (run [Settles 0 ''first'', Settles 1 ''second''] same_draw_twice) 0) = Pending
   \<and> wrapperPromise (heap (run [Fails 0 ''first'', Settles 1 ''second''] same_draw_twice) 0) = Pending"
proof -
  have stale: "map_of (activeRequests same_draw_twice) (info_requestId (heap same_draw_twice 0)) \<noteq> Some 0"
    by (simp add: same_draw_twice_fields)
  have s1: "step (Settles 0 ''first'') same_draw_twice = same_draw_twice"
    using stale by (simp add: onFulfilled_def)
  have s2: "step (Fails 0 ''first'') same_draw_twice = same_draw_twice"
    using stale by (simp add: onError_stale)
  have k: "heap (step (Settles 1 ''second'') same_draw_twice) 0 = heap same_draw_twice 0"
    using complete_keeps(1) [of 0 1 "Succeeds ''second''" same_draw_twice] by simp
  have n: "noCancel suppressed_options" by (simp add: suppressed_options_def)
  have r1: "wrapperPromise (heap (run [Settles 0 ''first'', Settles 1 ''second''] same_draw_twice) 0)
      = Pending"
    using s1 k by (simp add: same_draw_twice_fields(6) del: step.simps)
  have r2: "wrapperPromise (heap (run [Fails 0 ''first'', Settles 1 ''second''] same_draw_twice) 0)
      = Pending"
    using s2 k by (simp add: same_draw_twice_fields(6) del: step.simps)
  show ?thesis
    by (intro conjI n same_draw_twice_fields(1) same_draw_twice_fields(4)
        same_draw_twice_fields(2) same_draw_twice_fields(5) r1 r2)
qed

text \<open>
  Claim C5. Without suppression the identity is a function of the URL and the key alone
  (the clock and the random source play no part). The three URLs
  \<open>https://h/api/x?y=1#z\<close>, \<open>https://h/api/x?y=2\<close> and \<open>h/api/x\<close> resolve to the
  same identity \<open>request_h/api/x\<close>. With an explicit key \<open>v\<close>, \<open>custom\<close> among them, every
  URL resolves to \<open>request_v\<close>. The three strippings, for every URL: a scheme (a text free
  of colons, followed by \<open>://\<close>) in front of a rest without \<open>://\<close> is dropped; of a URL
  without \<open>://\<close> what is kept is the text before the first \<open>?\<close> and before the first
  \<open>#\<close>; so a path free of \<open>?\<close> and \<open>#\<close> followed by a query string, or by a fragment,
  resolves to the identity of the path alone.
\<close>

theorem identity_derivation:
  "generateRequestId (Some ''https://h/api/x?y=1#z'') KeyAbsent False env = ''request_h/api/x''
   \<and> generateRequestId (Some ''https://h/api/x?y=2'') KeyAbsent False env = ''request_h/api/x''
   \<and> generateRequestId (Some ''h/api/x'') KeyAbsent False env = ''request_h/api/x''
   \<and> generateRequestId url (KeyLiteral ''custom'') False env = ''request_custom''
   \<and> generateRequestId url k False env = generateRequestId url k False env'
   \<and> generateRequestId url (KeyLiteral v) False env = ''request_'' @ v
   \<and> (CHR '':'' \<notin> set scheme \<and> \<not> js_includes rest ''://'' \<longrightarrow>
        generateRequestId (Some (scheme @ ''://'' @ rest)) KeyAbsent False env
          = generateRequestId (Some rest) KeyAbsent False env)
   \<and> (\<not> js_includes rest ''://'' \<longrightarrow>
        generateRequestId (Some rest) KeyAbsent False env
          = ''request_'' @ takeWhile (\<lambda>c. c \<noteq> CHR ''#'') (takeWhile (\<lambda>c. c \<noteq> CHR ''?'') rest))
   \<and> (\<not> js_includes (p @ ''?'' @ q) ''://'' \<and> CHR ''?'' \<notin> set p \<and> CHR ''#'' \<notin> set p \<longrightarrow>
        generateRequestId (Some (p @ ''?'' @ q)) KeyAbsent False env = ''request_'' @ p)
   \<and> (\<not> js_includes (p @ ''#'' @ f) ''://'' \<and> CHR ''?'' \<notin> set p \<and> CHR ''#'' \<notin> set p \<longrightarrow>
        generateRequestId (Some (p @ ''#'' @ f)) KeyAbsent False env = ''request_'' @ p)"
proof -
  have ev: "generateRequestId (Some ''https://h/api/x?y=1#z'') KeyAbsent False env = ''request_h/api/x''
   \<and> generateRequestId (Some ''https://h/api/x?y=2'') KeyAbsent False env = ''request_h/api/x''
   \<and> generateRequestId (Some ''h/api/x'') KeyAbsent False env = ''request_h/api/x''
   \<and> generateRequestId url (KeyLiteral ''custom'') False env = ''request_custom''
   \<and> generateRequestId url k False env = generateRequestId url k False env'
   \<and> generateRequestId url (KeyLiteral v) False env = ''request_'' @ v"
    by (simp add: generateRequestId_def cleanUrl_def strip_part_def js_split_def evalRequestKey_def)
  have abs: "\<And>u. generateRequestId (Some u) KeyAbsent False env = ''request_'' @ cleanUrl (Some u)"
    by (simp add: generateRequestId_def evalRequestKey_def)
  have gen: "\<not> js_includes rest ''://'' \<longrightarrow>
        generateRequestId (Some rest) KeyAbsent False env
          = ''request_'' @ takeWhile (\<lambda>c. c \<noteq> CHR ''#'') (takeWhile (\<lambda>c. c \<noteq> CHR ''?'') rest)"
    using strip_no_scheme [of rest] by (simp add: abs cleanUrl_shape)
  have sch: "CHR '':'' \<notin> set scheme \<and> \<not> js_includes rest ''://'' \<longrightarrow>
        generateRequestId (Some (scheme @ ''://'' @ rest)) KeyAbsent False env
          = generateRequestId (Some rest) KeyAbsent False env"
    using strip_no_scheme [of rest] strip_scheme [of scheme rest]
    by (simp add: abs cleanUrl_shape del: append.simps)
  have qu: "\<not> js_includes (p @ ''?'' @ q) ''://'' \<and> CHR ''?'' \<notin> set p \<and> CHR ''#'' \<notin> set p \<longrightarrow>
        generateRequestId (Some (p @ ''?'' @ q)) KeyAbsent False env = ''request_'' @ p"
  proof (intro impI)
    assume a: "\<not> js_includes (p @ ''?'' @ q) ''://'' \<and> CHR ''?'' \<notin> set p \<and> CHR ''#'' \<notin> set p"
    then have "takeWhile (\<lambda>c. c \<noteq> CHR ''#'') p = p" by (simp add: takeWhile_all)
    then show "generateRequestId (Some (p @ ''?'' @ q)) KeyAbsent False env = ''request_'' @ p"
      using a takeWhile_query [of p q] strip_no_scheme [of "p @ ''?'' @ q"]
      by (simp add: abs cleanUrl_shape del: append.simps)
  qed
  have fr: "\<not> js_includes (p @ ''#'' @ f) ''://'' \<and> CHR ''?'' \<notin> set p \<and> CHR ''#'' \<notin> set p \<longrightarrow>
        generateRequestId (Some (p @ ''#'' @ f)) KeyAbsent False env = ''request_'' @ p"
  proof (intro impI)
    assume a: "\<not> js_includes (p @ ''#'' @ f) ''://'' \<and> CHR ''?'' \<notin> set p \<and> CHR ''#'' \<notin> set p"
    then show "generateRequestId (Some (p @ ''#'' @ f)) KeyAbsent False env = ''request_'' @ p"
      using takeWhile_fragment [of p f] strip_no_scheme [of "p @ ''#'' @ f"]
      by (simp add: abs cleanUrl_shape del: append.simps)
  qed
  show ?thesis using ev gen sch qu fr by blast
qed

theorem identity_derivation_witness:
  "CHR '':'' \<notin> set ''https'' \<and> \<not> js_includes ''h/api/x#z'' ''://''
   \<and> generateRequestId (Some (''https'' @ ''://'' @ ''h/api/x#z'')) KeyAbsent False no_entropy
        = generateRequestId (Some ''h/api/x#z'') KeyAbsent False no_entropy
   \<and> generateRequestId (Some ''h/api/x#z'') KeyAbsent False no_entropy = ''request_h/api/x''
   \<and> \<not> js_includes (''h/api/x'' @ ''?'' @ ''y=1#z'') ''://''
   \<and> CHR ''?'' \<notin> set ''h/api/x'' \<and> CHR ''#'' \<notin> set ''h/api/x''
   \<and> generateRequestId (Some (''h/api/x'' @ ''?'' @ ''y=1#z'')) KeyAbsent False no_entropy
        = ''request_h/api/x''
   \<and> \<not> js_includes (''h/api/x'' @ ''#'' @ ''z'') ''://''
   \<and> generateRequestId (Some (''h/api/x'' @ ''#'' @ ''z'')) KeyAbsent False no_entropy
        = ''request_h/api/x''"
  using identity_derivation [of no_entropy "None" KeyAbsent no_entropy "[]" "''https''" "''h/api/x#z''"
      "''h/api/x''" "''y=1#z''" "''z''"]
  by simp

text \<open>
  Claim C6. \<open>cancel(requestId)\<close> returns false and leaves the manager as it was when no
  entry exists for \<open>requestId\<close>. When one exists, its controller being an
  \<open>AbortController\<close> (an object with a signal), it returns true and removes exactly the
  entries of that key, so a second \<open>cancel\<close> with the same id returns false.
\<close>

theorem cancel_idempotent:
  assumes "typed_table w"
  shows "(\<not> isActive i w \<longrightarrow> cancel i w = (Returned False, w))
   \<and> (isActive i w \<longrightarrow>
        (\<exists>w'. cancel i w = (Returned True, w')
           \<and> activeRequests w' = AList.delete i (activeRequests w)
           \<and> \<not> isActive i w'
           \<and> cancel i w' = (Returned False, w')))"
proof (intro conjI impI)
  assume "\<not> isActive i w"
  then show "cancel i w = (Returned False, w)"
    by (simp add: isActive_def cancel_absent)
next
  assume "isActive i w"
  then obtain r where r: "map_of (activeRequests w) i = Some r"
    by (auto simp add: isActive_def)
  have "(i, r) \<in> set (activeRequests w)" using r by (rule map_of_SomeD)
  then have sg: "has_signal (controllers w (info_abortController (heap w r)))"
    using assms by (auto simp add: typed_table_def typed_entry_def list_all_iff)
  from cancel_present [OF r sg] obtain w' where
    w': "cancel i w = (Returned True, w')"
    and tbl: "activeRequests w' = AList.delete i (activeRequests w)"
    by force
  have gone: "map_of (activeRequests w') i = None"
    by (simp add: tbl delete_conv')
  show "\<exists>w'. cancel i w = (Returned True, w')
           \<and> activeRequests w' = AList.delete i (activeRequests w)
           \<and> \<not> isActive i w'
           \<and> cancel i w' = (Returned False, w')"
    using w' tbl gone cancel_absent [OF gone] by (auto simp add: isActive_def)
qed

theorem cancel_idempotent_witness:
  "typed_table two_requests
   \<and> isActive ''request_/api/a'' two_requests
   \<and> (\<exists>w'. cancel ''request_/api/a'' two_requests = (Returned True, w')
           \<and> activeRequests w' = [(''request_/api/b'', 1)]
           \<and> \<not> isActive ''request_/api/a'' w'
           \<and> cancel ''request_/api/a'' w' = (Returned False, w'))
   \<and> \<not> isActive ''request_/api/c'' two_requests
   \<and> cancel ''request_/api/c'' two_requests = (Returned False, two_requests)"
  using cancel_idempotent [OF two_requests_typed, of "''request_/api/a''"]
    cancel_idempotent [OF two_requests_typed, of "''request_/api/c''"]
    two_requests_typed
  by (simp add: isActive_def two_requests_table)

text \<open>
  Claim C7. On a table of N entries under N distinct identities, their controllers being
  \<open>AbortController\<close>s (objects with a signal), \<open>cancelAll()\<close> returns N, every one of
  these entries is marked cancelled, and \<open>getActiveCount()\<close> is 0 afterwards.
\<close>

theorem cancelAll_count:
  assumes "distinct (map fst (activeRequests w))" and "typed_table w"
  shows "\<exists>w'. cancelAll w = (Returned (getActiveCount w), w')
          \<and> getActiveCount w' = 0
          \<and> (\<forall>k r. map_of (activeRequests w) k = Some r \<longrightarrow> isCancelled (heap w' r))"
proof -
  have ex: "\<forall>k \<in> set (map fst (activeRequests w)). map_of (activeRequests w) k \<noteq> None"
    by (auto simp add: map_of_eq_None_iff)
  have ty: "\<forall>k \<in> set (map fst (activeRequests w)).
      \<forall>r. map_of (activeRequests w) k = Some r \<longrightarrow> typed_entry r w"
    using typed_table_lookup [OF assms(2)] by blast
  from cancel_each_all [OF assms(1) ex ty, of 0] obtain w' where
    run: "cancel_each (map fst (activeRequests w)) 0 w = (Returned (0 + length (map fst (activeRequests w))), w')"
    and tbl: "activeRequests w' = filter (\<lambda>kv. fst kv \<notin> set (map fst (activeRequests w))) (activeRequests w)"
    and all: "\<forall>k \<in> set (map fst (activeRequests w)). \<forall>r. map_of (activeRequests w) k = Some r \<longrightarrow> isCancelled (heap w' r)"
    by blast
  have empty: "activeRequests w' = []"
    unfolding tbl by (simp add: filter_empty_conv)
  have every: "\<forall>k r. map_of (activeRequests w) k = Some r \<longrightarrow> isCancelled (heap w' r)"
    using all by (metis domI dom_map_of_conv_image_fst set_map)
  show ?thesis using run empty every by (simp add: cancelAll_def getActiveCount_def)
qed

theorem cancelAll_count_witness:
  "distinct (map fst (activeRequests two_requests))
   \<and> typed_table two_requests
   \<and> (\<exists>w'. cancelAll two_requests = (Returned 2, w') \<and> getActiveCount w' = 0
         \<and> isCancelled (heap w' 0) \<and> isCancelled (heap w' 1))"
proof -
  have d: "distinct (map fst (activeRequests two_requests))"
    by (simp add: two_requests_table)
  from cancelAll_count [OF d two_requests_typed] obtain w' where
    run: "cancelAll two_requests = (Returned (getActiveCount two_requests), w')"
    and none: "getActiveCount w' = 0"
    and every: "\<forall>k r. map_of (activeRequests two_requests) k = Some r \<longrightarrow> isCancelled (heap w' r)"
    by blast
  have a: "isCancelled (heap w' 0)"
    using every [rule_format, of "''request_/api/a''" 0] by (simp add: two_requests_table)
  have b: "isCancelled (heap w' 1)"
    using every [rule_format, of "''request_/api/b''" 1] by (simp add: two_requests_table)
  have "cancelAll two_requests = (Returned 2, w')"
    using run by (simp add: two_requests_table getActiveCount_def)
  with none a b have "cancelAll two_requests = (Returned 2, w') \<and> getActiveCount w' = 0
         \<and> isCancelled (heap w' 0) \<and> isCancelled (heap w' 1)"
    by simp
  with d two_requests_typed show ?thesis by blast
qed


text \<open>
  Claim C9. \<open>clear()\<close> empties the table: the count is 0 and no identity is active. It
  makes no outside call (the trace is unchanged: no abort, no cancel token, no resolver),
  sets no entry's \<open>isCancelled\<close> flag, settles no wrapper promise (the heap of entries is
  unchanged) and aborts no controller.
\<close>

theorem clear_forgets_without_cancelling:
  "getActiveCount (clear w) = 0
   \<and> (\<forall>i. \<not> isActive i (clear w))
   \<and> trace (clear w) = trace w
   \<and> heap (clear w) = heap w
   \<and> controllers (clear w) = controllers w"
  by (simp add: clear_def getActiveCount_def isActive_def)

text \<open>
  Claim C10. Let \<open>c\<close> be a controller that \<open>getAbortController()\<close> (or \<open>getSignal()\<close>)
  handed out at some moment, and let a request be submitted at any later moment without
  \<open>abortController\<close> in its options. The request drops whatever the pending slot holds
  and creates a new controller, which is unaborted, becomes the content of the slot and
  differs from \<open>c\<close>. Its signal is the one in the prepared options that the supplier or
  \<open>fetch\<close> receives, and it is the controller stored in the entry of the request.
\<close>

theorem fresh_controller_per_request:
  assumes cw: "consistent w0" and got: "getAbortController w0 = (c, w1)"
    and later: "w = run es w1" and none: "opt_abortController opts = None"
  shows "fst (choose_controller opts w) = Own (next_controller w)
       \<and> abortController (snd (choose_controller opts w)) = Some (next_controller w)
       \<and> \<not> aborted (controllers (snd (choose_controller opts w)) (Own (next_controller w)))
       \<and> c \<noteq> Own (next_controller w)
       \<and> signal (prepareFetchOptions opts (Own (next_controller w))) \<noteq> c
       \<and> (\<exists>t. trace (snd (private_request i inp opts w))
                = trace w @ supplier_call inp opts (Own (next_controller w)) @ t)
       \<and> (\<forall>r w'. private_request i inp opts w = (Returned r, w') \<longrightarrow>
             info_abortController (heap w' r) = Own (next_controller w)
             \<and> info_abortController (heap w' r) \<noteq> c)"
proof -
  note f = choose_controller_fresh [OF none, of w]
  have slot: "case abortController w0 of None \<Rightarrow> True | Some c \<Rightarrow> c < next_controller w0"
    using cw by (simp add: consistent_def)
  from getAbortController_slot [OF slot] obtain k where
    k: "c = Own k" "k < next_controller w1"
    using got by auto
  have "next_controller w1 \<le> next_controller w"
    using evolves_run [of w1 es] later by (simp add: evolves_def)
  then have ne: "c \<noteq> Own (next_controller w)" using k by simp
  have tr: "\<exists>t. trace (snd (private_request i inp opts w))
                = trace w @ supplier_call inp opts (Own (next_controller w)) @ t"
    using private_request_trace [of i inp opts w] by (simp add: f(1))
  have en: "\<forall>r w'. private_request i inp opts w = (Returned r, w') \<longrightarrow>
             info_abortController (heap w' r) = Own (next_controller w)
             \<and> info_abortController (heap w' r) \<noteq> c"
    using private_request_entry [of i inp opts w] ne by (simp add: f(1))
  have sg: "signal (prepareFetchOptions opts (Own (next_controller w))) \<noteq> c"
    using ne by (simp add: prepareFetchOptions_def)
  have ua: "\<not> aborted (controllers (snd (choose_controller opts w)) (Own (next_controller w)))"
    by (simp add: f(4))
  show ?thesis using f(1) f(2) ua ne sg tr en by blast
qed

theorem fresh_controller_per_request_witness:
  "consistent (constructor \<lparr>mo_verbose = None\<rparr> plain_controllers)
   \<and> getAbortController (constructor \<lparr>mo_verbose = None\<rparr> plain_controllers) = (Own 0, signal_taken)
   \<and> signal_taken = run [] signal_taken
   \<and> opt_abortController default_options = None
   \<and> abortController signal_taken = Some 0
   \<and> fst (choose_controller default_options signal_taken) = Own 1
   \<and> abortController (snd (choose_controller default_options signal_taken)) = Some 1
   \<and> info_abortController
        (heap (snd (private_request ''request_/api/a'' (UrlString ''/api/a'') default_options signal_taken)) 0)
       = Own 1"
proof -
  let ?w0 = "constructor \<lparr>mo_verbose = None\<rparr> plain_controllers"
  let ?req = "private_request ''request_/api/a'' (UrlString ''/api/a'') default_options signal_taken"
  have c: "consistent ?w0" by (rule consistent_constructor)
  have l: "signal_taken = run [] signal_taken" by simp
  have n: "opt_abortController default_options = None" by (simp add: default_options_def)
  have r: "?req = (Returned 0, snd ?req)"
    using signal_taken_fields(4) by (simp add: prod_eq_iff)
  from fresh_controller_per_request [OF c signal_taken_fields(1) l n,
      of "''request_/api/a''" "UrlString ''/api/a''"] r
  have "fst (choose_controller default_options signal_taken) = Own 1"
    "abortController (snd (choose_controller default_options signal_taken)) = Some 1"
    "info_abortController (heap (snd ?req) 0) = Own 1"
    by (simp_all add: signal_taken_fields(2))
  with c l n signal_taken_fields show ?thesis by blast
qed

end
